theory Spec2Isabelle
  imports Main "HOL-Library.Char_ord" "HOL-Library.List_Lexorder" "HOL-Library.Multiset"
begin

section \<open>Go strings and the library functions the parser uses\<close>

text \<open>
  A Go string is a sequence of bytes, here a \<open>string\<close> (a list of 8-bit characters).
  Indexing \<open>s[i]\<close> reads a byte and panics out of range; comparison is bytewise and
  lexicographic, which is the order of \<open>Char_ord\<close> and \<open>List_Lexorder\<close>.
\<close>

datatype failure =
    StatusUnavailable     \<comment> \<open>\<open>git status\<close> could not run: an ordinary Go error value\<close>
  | CommandFailed         \<comment> \<open>another command or system call returned an error\<close>
  | IndexOutOfRange       \<comment> \<open>run-time panic: index out of range\<close>

text \<open>The six ASCII bytes of the table \<open>asciiSpace\<close> of package strings.\<close>

definition asciiSpace :: "char \<Rightarrow> bool" where
  "asciiSpace c \<longleftrightarrow>
     c = CHR 0x09 \<or> c = CHR 0x0A \<or> c = CHR 0x0B \<or> c = CHR 0x0C \<or> c = CHR 0x0D \<or> c = CHR 0x20"

text \<open>
  \<open>unicode.IsSpace\<close> on the rune that starts the string, as the number of bytes of that
  rune (0 when the string does not start with a white-space rune). Besides the ASCII
  bytes these are U+0085, U+00A0, U+1680, U+2000 to U+200A, U+2028, U+2029, U+202F,
  U+205F and U+3000 in their UTF-8 encodings. Every such encoding starts with a lead
  byte and a lead byte is never read as the continuation of an earlier rune, so the
  test on the bytes is the test on the decoded rune.
\<close>

fun spaceWidth :: "string \<Rightarrow> nat" where
  "spaceWidth [] = 0"
| "spaceWidth [a] = (if asciiSpace a then 1 else 0)"
| "spaceWidth [a, b] =
     (if asciiSpace a then 1
      else if a = CHR 0xC2 \<and> (b = CHR 0x85 \<or> b = CHR 0xA0) then 2 else 0)"
| "spaceWidth (a # b # c # _) =
     (if asciiSpace a then 1
      else if a = CHR 0xC2 \<and> (b = CHR 0x85 \<or> b = CHR 0xA0) then 2
      else if a = CHR 0xE1 \<and> b = CHR 0x9A \<and> c = CHR 0x80 then 3
      else if a = CHR 0xE2 \<and> b = CHR 0x80 \<and>
              ((CHR 0x80 \<le> c \<and> c \<le> CHR 0x8A) \<or> c = CHR 0xA8 \<or> c = CHR 0xA9 \<or> c = CHR 0xAF)
           then 3
      else if a = CHR 0xE2 \<and> b = CHR 0x81 \<and> c = CHR 0x9F then 3
      else if a = CHR 0xE3 \<and> b = CHR 0x80 \<and> c = CHR 0x80 then 3
      else 0)"

text \<open>The same test on the last rune of the string (\<open>utf8.DecodeLastRuneInString\<close>).\<close>

definition spaceWidthEnd :: "string \<Rightarrow> nat" where
  "spaceWidthEnd s =
     (if s = [] then 0
      else if asciiSpace (last s) then 1
      else if 2 \<le> length s \<and> spaceWidth (drop (length s - 2) s) = 2 then 2
      else if 3 \<le> length s \<and> spaceWidth (drop (length s - 3) s) = 3 then 3
      else 0)"

text \<open>
  \<open>strings.Fields\<close>: the maximal runs of bytes between white-space runes. The first
  argument counts the bytes of a multi-byte white-space rune still to be skipped, the
  second is the field being read.
\<close>

fun FieldsFrom :: "nat \<Rightarrow> string \<Rightarrow> string \<Rightarrow> string list" where
  "FieldsFrom k cur [] = (if cur = [] then [] else [cur])"
| "FieldsFrom (Suc k) cur (c # cs) = FieldsFrom k cur cs"
| "FieldsFrom 0 cur (c # cs) =
     (if spaceWidth (c # cs) = 0 then FieldsFrom 0 (cur @ [c]) cs
      else (if cur = [] then [] else [cur]) @ FieldsFrom (spaceWidth (c # cs) - 1) [] cs)"

definition Fields :: "string \<Rightarrow> string list" where
  "Fields s = FieldsFrom 0 [] s"

text \<open>\<open>strings.TrimSpace\<close>: leading white-space runes are removed, then trailing ones.\<close>

function TrimLeftSpace :: "string \<Rightarrow> string" where
  "TrimLeftSpace s = (if spaceWidth s = 0 then s else TrimLeftSpace (drop (spaceWidth s) s))"
  by pat_completeness auto
termination
proof (relation "measure length")
  show "wf (measure length)" by simp
next
  fix s :: string
  assume w: "spaceWidth s \<noteq> 0"
  then have "s \<noteq> []" by (cases s) auto
  with w show "(drop (spaceWidth s) s, s) \<in> measure length" by simp
qed

function TrimRightSpace :: "string \<Rightarrow> string" where
  "TrimRightSpace s =
     (if spaceWidthEnd s = 0 then s else TrimRightSpace (take (length s - spaceWidthEnd s) s))"
  by pat_completeness auto
termination
  by (relation "measure length") (auto simp: spaceWidthEnd_def split: if_splits)

definition TrimSpace :: "string \<Rightarrow> string" where
  "TrimSpace s = TrimRightSpace (TrimLeftSpace s)"

definition HasPrefix :: "string \<Rightarrow> string \<Rightarrow> bool" where
  "HasPrefix s p \<longleftrightarrow> take (length p) s = p"

definition TrimPrefix :: "string \<Rightarrow> string \<Rightarrow> string" where
  "TrimPrefix s p = (if HasPrefix s p then drop (length p) s else s)"

text \<open>
  \<open>strings.Split(s, sep)\<close> for a separator of one byte: the pieces between the
  separators; the empty string gives one empty piece.
\<close>

fun Split :: "string \<Rightarrow> char \<Rightarrow> string list" where
  "Split [] sep = [[]]"
| "Split (c # cs) sep =
     (if c = sep then [] # Split cs sep
      else (case Split cs sep of [] \<Rightarrow> [[c]] | p # ps \<Rightarrow> (c # p) # ps))"

text \<open>\<open>strings.SplitN(s, sep, 2)\<close>: cut at the first separator, if there is one.\<close>

definition SplitN2 :: "string \<Rightarrow> char \<Rightarrow> string list" where
  "SplitN2 s sep =
     (if sep \<in> set s then [takeWhile (\<lambda>c. c \<noteq> sep) s, tl (dropWhile (\<lambda>c. c \<noteq> sep) s)]
      else [s])"

fun Join :: "string list \<Rightarrow> string \<Rightarrow> string" where
  "Join [] sep = []"
| "Join [a] sep = a"
| "Join (a # b # r) sep = a @ sep @ Join (b # r) sep"

section \<open>Status parser\<close>

datatype StatusCode =
  StatusModified | StatusAdded | StatusDeleted | StatusRenamed | StatusCopied | StatusUntracked

record FileStatus =
  Path :: string
  Status :: StatusCode
  IsStaged :: bool

definition mapStatusByte :: "char \<Rightarrow> StatusCode" where
  "mapStatusByte b =
     (if b = CHR ''M'' then StatusModified
      else if b = CHR ''A'' then StatusAdded
      else if b = CHR ''D'' then StatusDeleted
      else if b = CHR ''R'' then StatusRenamed
      else if b = CHR ''C'' then StatusCopied
      else StatusModified)"

text \<open>
  \<open>parseOrdinaryEntry\<close> returns a pointer or nil (\<open>Some\<close> or \<open>None\<close>); the reads
  \<open>xy[0]\<close> and \<open>xy[1]\<close> panic when the second field is shorter than two bytes.
\<close>

definition parseOrdinaryEntry :: "string \<Rightarrow> failure + FileStatus option" where
  "parseOrdinaryEntry line =
     (let fields = Fields line in
      if length fields < 9 then Inr None
      else
        let xy = fields ! 1 in
        if length xy < 2 then Inl IndexOutOfRange
        else
          let stagedCode = xy ! 0;
              unstagedCode = xy ! 1;
              path = (if fields ! 0 = ''2''
                      then (let lastField = last fields;
                                parts = SplitN2 lastField (CHR 0x09)
                            in if length parts = 2 then parts ! 1 else lastField)
                      else last fields)
          in if unstagedCode \<noteq> CHR ''.''
             then Inr (Some \<lparr>Path = path, Status = mapStatusByte unstagedCode, IsStaged = False\<rparr>)
             else if stagedCode \<noteq> CHR ''.''
             then Inr (Some \<lparr>Path = path, Status = mapStatusByte stagedCode, IsStaged = True\<rparr>)
             else Inr None)"

text \<open>
  The body of the loop of \<open>GetStatus\<close> for one line of the output: the records it
  appends to \<open>files\<close>.
\<close>

definition GetStatus_line :: "string \<Rightarrow> failure + FileStatus list" where
  "GetStatus_line raw =
     (let line = TrimSpace raw in
      if line = [] \<or> HasPrefix line ''#'' then Inr []
      else if HasPrefix line ''1 '' \<or> HasPrefix line ''2 ''
      then (case parseOrdinaryEntry line of
              Inl e \<Rightarrow> Inl e
            | Inr None \<Rightarrow> Inr []
            | Inr (Some fs) \<Rightarrow> Inr [fs])
      else if HasPrefix line ''? ''
      then Inr [\<lparr>Path = drop 2 line, Status = StatusUntracked, IsStaged = False\<rparr>]
      else Inr [])"

fun GetStatus_loop :: "string list \<Rightarrow> FileStatus list \<Rightarrow> failure + FileStatus list" where
  "GetStatus_loop [] files = Inr files"
| "GetStatus_loop (raw # rest) files =
     (case GetStatus_line raw of
        Inl e \<Rightarrow> Inl e
      | Inr new \<Rightarrow> GetStatus_loop rest (files @ new))"

text \<open>
  \<open>GetStatus\<close>, with the result of running \<open>git status --porcelain=v2\<close> as its
  argument: the command's error, or its output.
\<close>

definition GetStatus :: "failure + string \<Rightarrow> failure + FileStatus list" where
  "GetStatus cmd =
     (case cmd of
        Inl e \<Rightarrow> Inl StatusUnavailable
      | Inr out \<Rightarrow> GetStatus_loop (Split out (CHR 0x0A)) [])"

section \<open>Paths\<close>

text \<open>
  \<open>filepath.Clean\<close> on a Unix system, element by element: empty elements and \<open>.\<close>
  are dropped, \<open>..\<close> removes the element before it, is kept at the start of a
  relative path and dropped at the root; the empty result is \<open>.\<close>.
\<close>

definition cleanStep :: "bool \<Rightarrow> string list \<Rightarrow> string \<Rightarrow> string list" where
  "cleanStep rooted out e =
     (if e = [] \<or> e = ''.'' then out
      else if e = ''..''
      then (if out \<noteq> [] \<and> last out \<noteq> ''..'' then butlast out
            else if \<not> rooted then out @ [''..''] else out)
      else out @ [e])"

definition filepath_Clean :: "string \<Rightarrow> string" where
  "filepath_Clean path =
     (if path = [] then ''.''
      else
        let rooted = (hd path = CHR ''/'');
            out = Join (foldl (cleanStep rooted) [] (Split path (CHR ''/''))) ''/''
        in if rooted then CHR ''/'' # out else if out = [] then ''.'' else out)"

text \<open>\<open>filepath.Dir\<close>: the path up to its last separator, cleaned.\<close>

definition filepath_Dir :: "string \<Rightarrow> string" where
  "filepath_Dir path = filepath_Clean (rev (dropWhile (\<lambda>c. c \<noteq> CHR ''/'') (rev path)))"

text \<open>\<open>filepath.Join\<close>: leading empty elements are ignored, the rest is joined and cleaned.\<close>

definition filepath_Join :: "string list \<Rightarrow> string" where
  "filepath_Join elem =
     (case dropWhile (\<lambda>e. e = []) elem of
        [] \<Rightarrow> []
      | es \<Rightarrow> filepath_Clean (Join es ''/''))"

section \<open>Repositories and the tree\<close>

record Repo =
  Repo_Path :: string
  RelPath :: string
  Branch :: string
  Files :: "FileStatus list"

datatype NodeKind = NodeRepo | NodeDir | NodeFile

text \<open>
  The pointers \<open>Repo\<close> and \<open>File\<close> of a node point into the repository list the tree
  was built from: \<open>Repo\<close> is \<open>&repos[RepoIndex]\<close> in every node, and \<open>File\<close> is kept
  as the record it points to.
\<close>

record TreeNode =
  Kind :: NodeKind
  File :: "FileStatus option"
  DirPath :: string
  RepoIndex :: nat
  Depth :: nat
  Collapsed :: bool
  ParentDir :: int

record TreeModel =
  nodes :: "TreeNode list"
  visible :: "nat list"
  cursor :: int

text \<open>
  Go iterates over a map in an order that is not specified and changes from run to
  run. Every \<open>range\<close> over a map takes its order from a parameter: the function maps
  the number of the loop and the keys of the map to the keys in the order visited.
\<close>

type_synonym rangeOrder = "nat \<Rightarrow> string list \<Rightarrow> string list"

definition repoNode :: "nat \<Rightarrow> TreeNode" where
  "repoNode i = \<lparr>Kind = NodeRepo, File = None, DirPath = [], RepoIndex = i, Depth = 0,
                 Collapsed = False, ParentDir = - 1\<rparr>"

definition dirNode :: "nat \<Rightarrow> nat \<Rightarrow> string \<Rightarrow> nat \<Rightarrow> TreeNode" where
  "dirNode i depth name parentIdx =
     \<lparr>Kind = NodeDir, File = None, DirPath = name, RepoIndex = i, Depth = depth,
      Collapsed = False, ParentDir = int parentIdx\<rparr>"

definition fileNode :: "nat \<Rightarrow> nat \<Rightarrow> nat \<Rightarrow> FileStatus \<Rightarrow> TreeNode" where
  "fileNode i depth parentIdx f =
     \<lparr>Kind = NodeFile, File = Some f, DirPath = [], RepoIndex = i, Depth = depth,
      Collapsed = False, ParentDir = int parentIdx\<rparr>"

text \<open>\<open>dirFiles\<close>: the files of a repository grouped by directory, in the order read.\<close>

definition dirKey :: "string \<Rightarrow> string" where
  "dirKey p = (let dir = filepath_Dir p in if dir = ''.'' then [] else dir)"

definition appendTo ::
  "(string \<times> FileStatus list) list \<Rightarrow> string \<Rightarrow> FileStatus \<Rightarrow> (string \<times> FileStatus list) list" where
  "appendTo m dir f =
     (case map_of m dir of
        None \<Rightarrow> m @ [(dir, [f])]
      | Some _ \<Rightarrow> map (\<lambda>(k, fs). if k = dir then (k, fs @ [f]) else (k, fs)) m)"

definition groupFiles :: "FileStatus list \<Rightarrow> (string \<times> FileStatus list) list" where
  "groupFiles fs = foldl (\<lambda>m f. appendTo m (dirKey (Path f)) f) [] fs"

definition lookupFiles :: "(string \<times> FileStatus list) list \<Rightarrow> string \<Rightarrow> FileStatus list" where
  "lookupFiles m dir = (case map_of m dir of None \<Rightarrow> [] | Some fs \<Rightarrow> fs)"

text \<open>\<open>dirSet\<close>: every directory that owns a file, with all its ancestors.\<close>

definition addAncestors :: "string list \<Rightarrow> string \<Rightarrow> string list" where
  "addAncestors dirSet dir =
     (if dir = [] then dirSet
      else
        let parts = Split dir (CHR ''/'')
        in foldl (\<lambda>s k. List.insert (Join (take k parts) ''/'') s) dirSet [1..<Suc (length parts)])"

definition collectDirs :: "string list \<Rightarrow> string list" where
  "collectDirs keys = foldl addAncestors [] keys"

lemma Split_not_Nil: "Split s c \<noteq> []"
  by (induction s) (auto split: list.splits)

lemma Join_Split: "Join (Split s c) [c] = s"
proof (induction s)
  case Nil
  show ?case by simp
next
  case (Cons x xs)
  obtain p ps where sp: "Split xs c = p # ps"
    using Split_not_Nil [of xs c] by (cases "Split xs c") auto
  with Cons show ?case by (cases ps) auto
qed

lemma Join_butlast_shorter:
  "1 < length ps \<Longrightarrow> length (Join (butlast ps) [c]) < length (Join ps [c])"
proof (induction ps "[c]" rule: Join.induct)
  case 1
  then show ?case by simp
next
  case (2 a)
  then show ?case by simp
next
  case (3 a b r)
  then show ?case by (cases r) auto
qed

text \<open>
  The closure \<open>addDir\<close>. Its state is the node list and the map \<open>dirNodeIdx\<close>; the node
  of a directory is followed by the nodes of the files directly in it.
\<close>

definition emitDir ::
  "nat \<Rightarrow> (string \<times> FileStatus list) list \<Rightarrow> string \<Rightarrow> nat \<Rightarrow>
   TreeNode list \<times> (string \<rightharpoonup> nat) \<Rightarrow> TreeNode list \<times> (string \<rightharpoonup> nat)" where
  "emitDir i dirFiles dir parentIdx st =
     (let parts = Split dir (CHR ''/'');
          depth = length parts;
          dirIdx = length (fst st)
      in (fst st @ [dirNode i depth (last parts) parentIdx]
                 @ map (fileNode i (depth + 1) dirIdx) (lookupFiles dirFiles dir),
          (snd st)(dir \<mapsto> dirIdx)))"

function addDir ::
  "nat \<Rightarrow> nat \<Rightarrow> (string \<times> FileStatus list) list \<Rightarrow>
   TreeNode list \<times> (string \<rightharpoonup> nat) \<Rightarrow> string \<Rightarrow> TreeNode list \<times> (string \<rightharpoonup> nat)" where
  "addDir i repoIdx dirFiles st dir =
     (if snd st dir \<noteq> None then st
      else if 1 < length (Split dir (CHR ''/''))
      then
        (let parentDir = Join (butlast (Split dir (CHR ''/''))) ''/'';
             st1 = addDir i repoIdx dirFiles st parentDir
         in emitDir i dirFiles dir (case snd st1 parentDir of None \<Rightarrow> 0 | Some k \<Rightarrow> k) st1)
      else emitDir i dirFiles dir repoIdx st)"
  by pat_completeness auto
termination
proof (relation "measure (\<lambda>(i, repoIdx, dirFiles, st, dir). length dir)")
  show "wf (measure (\<lambda>(i, repoIdx, dirFiles, st, dir). length dir))" by simp
next
  fix i repoIdx :: nat and dirFiles :: "(string \<times> FileStatus list) list"
    and st :: "TreeNode list \<times> (string \<rightharpoonup> nat)" and dir x :: string
  assume "1 < length (Split dir (CHR ''/''))"
    and "x = Join (butlast (Split dir (CHR ''/''))) ''/''"
  then have "length x < length (Join (Split dir (CHR ''/'')) ''/'')"
    by (simp add: Join_butlast_shorter)
  then show "((i, repoIdx, dirFiles, st, x), (i, repoIdx, dirFiles, st, dir))
      \<in> measure (\<lambda>(i, repoIdx, dirFiles, st, dir). length dir)"
    by (simp add: Join_Split)
qed

declare addDir.simps [simp del]

text \<open>The body of the loop of \<open>NewTreeModel\<close> over the repositories.\<close>

definition addRepo :: "rangeOrder \<Rightarrow> TreeNode list \<Rightarrow> nat \<times> Repo \<Rightarrow> TreeNode list" where
  "addRepo ord ns ir =
     (let i = fst ir;
          repoIdx = length ns;
          dirFiles = groupFiles (Files (snd ir));
          dirSet = collectDirs (ord (2 * i) (map fst dirFiles));
          allDirs = sort (ord (2 * i + 1) dirSet);
          st = foldl (addDir i repoIdx dirFiles) (ns @ [repoNode i], Map.empty) allDirs
      in fst st @ map (fileNode i 1 repoIdx) (lookupFiles dirFiles []))"

text \<open>
  \<open>isAncestorExpanded\<close> follows the parent indices. It has no value (\<open>None\<close>) when a
  parent index lies outside the node list (a panic) or the chain of parents never
  ends.
\<close>

partial_function (option) isAncestorExpanded :: "TreeNode list \<Rightarrow> TreeNode \<Rightarrow> bool option" where
  "isAncestorExpanded ns n =
     (if ParentDir n < 0 then Some True
      else if length ns \<le> nat (ParentDir n) then None
      else if Collapsed (ns ! nat (ParentDir n)) then Some False
      else isAncestorExpanded ns (ns ! nat (ParentDir n)))"

declare isAncestorExpanded.simps [code]

fun visibleFrom :: "TreeNode list \<Rightarrow> nat \<Rightarrow> TreeNode list \<Rightarrow> nat list \<Rightarrow> nat list option" where
  "visibleFrom ns i [] vis = Some vis"
| "visibleFrom ns i (n # rest) vis =
     (case Kind n of
        NodeRepo \<Rightarrow> visibleFrom ns (Suc i) rest (vis @ [i])
      | NodeDir \<Rightarrow>
          (case isAncestorExpanded ns n of
             None \<Rightarrow> None
           | Some b \<Rightarrow> visibleFrom ns (Suc i) rest (if b then vis @ [i] else vis))
      | NodeFile \<Rightarrow>
          (case isAncestorExpanded ns n of
             None \<Rightarrow> None
           | Some b \<Rightarrow> visibleFrom ns (Suc i) rest (if b then vis @ [i] else vis)))"

definition rebuildVisible :: "TreeModel \<Rightarrow> TreeModel option" where
  "rebuildVisible tm =
     (case visibleFrom (nodes tm) 0 (nodes tm) [] of
        None \<Rightarrow> None
      | Some vis \<Rightarrow>
          Some (tm\<lparr>visible := vis,
                   cursor := (if int (length vis) \<le> cursor tm
                              then max 0 (int (length vis) - 1) else cursor tm)\<rparr>))"

definition NewTreeModel :: "rangeOrder \<Rightarrow> Repo list \<Rightarrow> TreeModel option" where
  "NewTreeModel ord rs =
     rebuildVisible \<lparr>nodes = foldl (addRepo ord) [] (enumerate 0 rs), visible = [], cursor = 0\<rparr>"

definition MoveUp :: "TreeModel \<Rightarrow> TreeModel" where
  "MoveUp tm = (if 0 < cursor tm then tm\<lparr>cursor := cursor tm - 1\<rparr> else tm)"

definition MoveDown :: "TreeModel \<Rightarrow> TreeModel" where
  "MoveDown tm =
     (if cursor tm < int (length (visible tm)) - 1 then tm\<lparr>cursor := cursor tm + 1\<rparr> else tm)"

text \<open>
  \<open>SelectedNode\<close> returns a pointer into the node list or nil; taking the address of
  \<open>tm.nodes[k]\<close> panics (\<open>None\<close>) when \<open>k\<close> is out of range.
\<close>

datatype nodePtr = Nil | NodeAt nat

definition SelectedNode :: "TreeModel \<Rightarrow> nodePtr option" where
  "SelectedNode tm =
     (if length (visible tm) = 0 \<or> cursor tm < 0 \<or> int (length (visible tm)) \<le> cursor tm
      then Some Nil
      else if visible tm ! nat (cursor tm) < length (nodes tm)
      then Some (NodeAt (visible tm ! nat (cursor tm)))
      else None)"

definition ToggleCollapse :: "TreeModel \<Rightarrow> TreeModel option" where
  "ToggleCollapse tm =
     (case SelectedNode tm of
        None \<Rightarrow> None
      | Some Nil \<Rightarrow> Some tm
      | Some (NodeAt k) \<Rightarrow>
          if Kind (nodes tm ! k) = NodeRepo \<or> Kind (nodes tm ! k) = NodeDir
          then rebuildVisible
                 (tm\<lparr>nodes := (nodes tm)[k := (nodes tm ! k)\<lparr>Collapsed := \<not> Collapsed (nodes tm ! k)\<rparr>]\<rparr>)
          else Some tm)"

text \<open>
  The fields of the program's \<open>model\<close> that the message \<open>reposScannedMsg\<close> touches, and
  that case of \<open>Update\<close>.
\<close>

record model =
  repos :: "Repo list"
  tree :: TreeModel

definition initialModel :: model where
  "initialModel = \<lparr>repos = [], tree = \<lparr>nodes = [], visible = [], cursor = 0\<rparr>\<rparr>"

definition Update_reposScanned :: "rangeOrder \<Rightarrow> model \<Rightarrow> Repo list \<Rightarrow> model option" where
  "Update_reposScanned ord m rs =
     (case NewTreeModel ord rs of
        None \<Rightarrow> None
      | Some t \<Rightarrow> Some (m\<lparr>repos := rs, tree := t\<rparr>))"

section \<open>Repository discovery\<close>

text \<open>
  What the scanner reads from the operating system and from git is a parameter: the
  working directory, \<open>os.Stat\<close> (an error, or whether the path is a directory),
  \<open>os.ReadDir\<close>, \<open>os.ReadFile\<close>, and the outputs of the two git commands, each for the
  path it is asked about.
\<close>

record dirEntry =
  Name :: string
  IsDir :: bool

record sys =
  getwd :: "failure + string"
  stat :: "string \<Rightarrow> failure + bool"
  readDir :: "string \<Rightarrow> failure + dirEntry list"
  readFile :: "string \<Rightarrow> failure + string"
  gitRevParse :: "string \<Rightarrow> failure + string"
  gitStatus :: "string \<Rightarrow> failure + string"

text \<open>\<open>filepath.Abs\<close>: an absolute path is cleaned, a relative one joined to the working directory.\<close>

definition filepath_Abs :: "sys \<Rightarrow> string \<Rightarrow> failure + string" where
  "filepath_Abs env path =
     (if HasPrefix path ''/'' then Inr (filepath_Clean path)
      else (case getwd env of
              Inl e \<Rightarrow> Inl e
            | Inr wd \<Rightarrow> Inr (filepath_Join [wd, path])))"

text \<open>
  \<open>filepath.Rel\<close> on the elements of the two cleaned paths: the common leading
  elements are dropped, every element left of the base becomes \<open>..\<close> and the
  elements left of the target follow (none when the target is \<open>.\<close>); the call fails
  when only one path is absolute or when the base differs from the target at an
  element \<open>..\<close>.
\<close>

definition pathElems :: "string \<Rightarrow> string list" where
  "pathElems p = filter (\<lambda>e. e \<noteq> []) (Split p (CHR ''/''))"

fun stripCommon :: "string list \<Rightarrow> string list \<Rightarrow> string list \<times> string list" where
  "stripCommon (a # as) (b # bs) = (if a = b then stripCommon as bs else (a # as, b # bs))"
| "stripCommon as bs = (as, bs)"

definition filepath_Rel :: "string \<Rightarrow> string \<Rightarrow> failure + string" where
  "filepath_Rel basepath targpath =
     (let base = filepath_Clean basepath;
          targ = filepath_Clean targpath
      in if targ = base then Inr ''.''
         else
           let base1 = (if base = ''.'' then [] else base);
               rest = stripCommon (pathElems base1) (pathElems targ)
           in if HasPrefix base1 ''/'' \<noteq> HasPrefix targ ''/'' then Inl CommandFailed
              else if fst rest \<noteq> [] \<and> snd rest \<noteq> [] \<and> hd (fst rest) = ''..''
              then Inl CommandFailed
              else Inr (Join (replicate (length (fst rest)) ''..''
                              @ (if targ = ''.'' then [] else snd rest)) ''/''))"

definition isGitRepo :: "sys \<Rightarrow> string \<Rightarrow> bool" where
  "isGitRepo env path =
     (case stat env (filepath_Join [path, ''.git'']) of
        Inl e \<Rightarrow> False
      | Inr isdir \<Rightarrow> isdir)"

definition FindBranch :: "sys \<Rightarrow> string \<Rightarrow> string" where
  "FindBranch env repoPath =
     (case gitRevParse env repoPath of
        Inr out \<Rightarrow> TrimSpace out
      | Inl e \<Rightarrow>
          (case readFile env (filepath_Join [repoPath, ''.git'', ''HEAD'']) of
             Inl e \<Rightarrow> ''unknown''
           | Inr data \<Rightarrow>
               let ref = TrimSpace data
               in if HasPrefix ref ''ref: refs/heads/'' then TrimPrefix ref ''ref: refs/heads/''
                  else ref))"

text \<open>
  \<open>buildRepo\<close> drops the error of \<open>GetStatus\<close> (the file list is then nil); a panic
  inside \<open>GetStatus\<close> is not an error value and ends \<open>buildRepo\<close> too.
\<close>

definition buildRepo :: "sys \<Rightarrow> string \<Rightarrow> string \<Rightarrow> failure + Repo" where
  "buildRepo env root repoPath =
     (let rel0 = (case filepath_Rel root repoPath of Inl e \<Rightarrow> repoPath | Inr r \<Rightarrow> r);
          rel = (if rel0 = [] \<or> rel0 = ''.'' then repoPath else rel0);
          branch = FindBranch env repoPath
      in case GetStatus (gitStatus env repoPath) of
           Inl e \<Rightarrow>
             if e = IndexOutOfRange then Inl IndexOutOfRange
             else Inr \<lparr>Repo_Path = repoPath, RelPath = rel, Branch = branch, Files = []\<rparr>
         | Inr files \<Rightarrow>
             Inr \<lparr>Repo_Path = repoPath, RelPath = rel, Branch = branch, Files = files\<rparr>)"

text \<open>
  \<open>sort.Slice\<close> sorts by the comparison it is given. On a short slice the library
  runs the insertion sort below: each element is moved towards the front while the
  comparison \<open>lt\<close> holds against the element before it. On a longer slice it also
  returns the elements sorted by \<open>lt\<close>, which is the same slice whenever \<open>lt\<close> orders
  the elements strictly and totally. The sorted front part is kept reversed, its last
  element first.
\<close>

fun insertBack :: "('a \<Rightarrow> 'a \<Rightarrow> bool) \<Rightarrow> 'a \<Rightarrow> 'a list \<Rightarrow> 'a list" where
  "insertBack lt x [] = [x]"
| "insertBack lt x (y # ys) = (if lt x y then y # insertBack lt x ys else x # y # ys)"

definition sortSlice :: "('a \<Rightarrow> 'a \<Rightarrow> bool) \<Rightarrow> 'a list \<Rightarrow> 'a list" where
  "sortSlice lt xs = rev (foldl (\<lambda>front x. insertBack lt x front) [] xs)"

text \<open>The comparison function that \<open>ScanRepos\<close> passes to \<open>sort.Slice\<close>.\<close>

definition repoLess :: "Repo \<Rightarrow> Repo \<Rightarrow> bool" where
  "repoLess a b =
     (if RelPath a = ''.'' then True
      else if RelPath b = ''.'' then False
      else RelPath a < RelPath b)"

text \<open>The inner and the outer loop of \<open>ScanRepos\<close> over directory entries.\<close>

fun scanDeep :: "sys \<Rightarrow> string \<Rightarrow> string \<Rightarrow> dirEntry list \<Rightarrow> Repo list \<Rightarrow> failure + Repo list" where
  "scanDeep env root sub [] rs = Inr rs"
| "scanDeep env root sub (subEntry # rest) rs =
     (if \<not> IsDir subEntry then scanDeep env root sub rest rs
      else if Name subEntry = [] then Inl IndexOutOfRange
      else if Name subEntry ! 0 = CHR ''.'' then scanDeep env root sub rest rs
      else if isGitRepo env (filepath_Join [sub, Name subEntry])
      then (case buildRepo env root (filepath_Join [sub, Name subEntry]) of
              Inl e \<Rightarrow> Inl e
            | Inr r \<Rightarrow> scanDeep env root sub rest (rs @ [r]))
      else scanDeep env root sub rest rs)"

definition scanSub :: "sys \<Rightarrow> string \<Rightarrow> string \<Rightarrow> Repo list \<Rightarrow> failure + Repo list" where
  "scanSub env root sub rs =
     (case (if isGitRepo env sub
            then (case buildRepo env root sub of Inl e \<Rightarrow> Inl e | Inr r \<Rightarrow> Inr (rs @ [r]))
            else Inr rs) of
        Inl e \<Rightarrow> Inl e
      | Inr rs1 \<Rightarrow>
          (case readDir env sub of
             Inl e \<Rightarrow> Inr rs1
           | Inr subEntries \<Rightarrow> scanDeep env root sub subEntries rs1))"

fun scanEntries :: "sys \<Rightarrow> string \<Rightarrow> dirEntry list \<Rightarrow> Repo list \<Rightarrow> failure + Repo list" where
  "scanEntries env root [] rs = Inr rs"
| "scanEntries env root (entry # rest) rs =
     (if \<not> IsDir entry then scanEntries env root rest rs
      else if Name entry = [] then Inl IndexOutOfRange
      else if Name entry ! 0 = CHR ''.'' then scanEntries env root rest rs
      else (case scanSub env root (filepath_Join [root, Name entry]) rs of
              Inl e \<Rightarrow> Inl e
            | Inr rs1 \<Rightarrow> scanEntries env root rest rs1))"

definition ScanRepos :: "sys \<Rightarrow> string \<Rightarrow> failure + Repo list" where
  "ScanRepos env root0 =
     (case filepath_Abs env root0 of
        Inl e \<Rightarrow> Inl e
      | Inr root \<Rightarrow>
          (case (if isGitRepo env root
                 then (case buildRepo env root root of Inl e \<Rightarrow> Inl e | Inr r \<Rightarrow> Inr [r])
                 else Inr []) of
             Inl e \<Rightarrow> Inl e
           | Inr rs0 \<Rightarrow>
               (case readDir env root of
                  Inl e \<Rightarrow> Inr rs0
                | Inr entries \<Rightarrow>
                    (case scanEntries env root entries rs0 of
                       Inl e \<Rightarrow> Inl e
                     | Inr rs \<Rightarrow> Inr (sortSlice repoLess rs)))))"

text \<open>
  A directory \<open>/r\<close> that is a repository and holds one more repository, \<open>/r/-a\<close>.
\<close>

definition demo_sys :: sys where
  "demo_sys =
     \<lparr>getwd = Inr ''/r'',
      stat = (\<lambda>p. if p = ''/r/.git'' \<or> p = ''/r/-a/.git'' then Inr True else Inl CommandFailed),
      readDir = (\<lambda>p. if p = ''/r''
                      then Inr [\<lparr>Name = ''-a'', IsDir = True\<rparr>, \<lparr>Name = ''.git'', IsDir = True\<rparr>,
                                \<lparr>Name = ''notes.txt'', IsDir = False\<rparr>]
                      else if p = ''/r/-a'' then Inr [\<lparr>Name = ''.git'', IsDir = True\<rparr>]
                      else Inl CommandFailed),
      readFile = (\<lambda>p. Inl CommandFailed),
      gitRevParse = (\<lambda>p. Inr (''main'' @ [CHR 0x0A])),
      gitStatus = (\<lambda>p. if p = ''/r'' then Inr (''? notes.txt'' @ [CHR 0x0A]) else Inr [])\<rparr>"

text \<open>
  The same system with the status command failing for the repository at \<open>p\<close>, and a
  repository list with the files of the repository at \<open>p\<close> removed.
\<close>

definition statusFails :: "sys \<Rightarrow> string \<Rightarrow> failure \<Rightarrow> sys" where
  "statusFails env p e = env\<lparr>gitStatus := (gitStatus env)(p := Inl e)\<rparr>"

definition emptied :: "string \<Rightarrow> Repo \<Rightarrow> Repo" where
  "emptied p r = (if Repo_Path r = p then r\<lparr>Files := []\<rparr> else r)"

section \<open>Invariants of the tree\<close>

text \<open>
  What \<open>NewTreeModel\<close> establishes for every node it appends at index \<open>i\<close>: it is
  expanded, a repository node has no parent, and the parent of any other node is an
  earlier node.
\<close>

definition node_ok :: "nat \<Rightarrow> TreeNode \<Rightarrow> bool" where
  "node_ok i n \<longleftrightarrow>
     \<not> Collapsed n \<and>
     (if Kind n = NodeRepo then ParentDir n = - 1 else 0 \<le> ParentDir n \<and> ParentDir n < int i)"

definition built :: "TreeNode list \<Rightarrow> bool" where
  "built ns \<longleftrightarrow> (\<forall>i<length ns. node_ok i (ns ! i))"

text \<open>
  The invariant of the closure \<open>addDir\<close>: the nodes so far are as above, the
  repository node exists, and every index recorded in \<open>dirNodeIdx\<close> is the index of a
  node.
\<close>

definition st_ok :: "nat \<Rightarrow> TreeNode list \<times> (string \<rightharpoonup> nat) \<Rightarrow> bool" where
  "st_ok repoIdx st \<longleftrightarrow>
     built (fst st) \<and> repoIdx < length (fst st) \<and> (\<forall>d k. snd st d = Some k \<longrightarrow> k < length (fst st))"

text \<open>
  The description of visibility, in its own words and not the code's: the ancestors
  of a node are its parent, the parent of its parent and so on up the chain of
  \<open>ParentDir\<close> indices, and a node is visible when none of them is collapsed.
\<close>

inductive ancestor :: "TreeNode list \<Rightarrow> TreeNode \<Rightarrow> nat \<Rightarrow> bool" for ns :: "TreeNode list" where
  parent: "0 \<le> ParentDir n \<Longrightarrow> ancestor ns n (nat (ParentDir n))"
| grandparent: "ancestor ns n j \<Longrightarrow> j < length ns \<Longrightarrow> 0 \<le> ParentDir (ns ! j) \<Longrightarrow>
     ancestor ns n (nat (ParentDir (ns ! j)))"

definition noCollapsedAncestor :: "TreeNode list \<Rightarrow> TreeNode \<Rightarrow> bool" where
  "noCollapsedAncestor ns n \<longleftrightarrow> (\<forall>j<length ns. ancestor ns n j \<longrightarrow> \<not> Collapsed (ns ! j))"

definition visibleSpec :: "TreeNode list \<Rightarrow> nat list" where
  "visibleSpec ns = filter (\<lambda>j. noCollapsedAncestor ns (ns ! j)) [0..<length ns]"

text \<open>
  The shape of the node list that collapse toggles keep: repository nodes have no
  parent, the parent of any other node is an earlier node.
\<close>

definition wf_nodes :: "TreeNode list \<Rightarrow> bool" where
  "wf_nodes ns \<longleftrightarrow>
     (\<forall>i<length ns. if Kind (ns ! i) = NodeRepo then ParentDir (ns ! i) = - 1
                     else 0 \<le> ParentDir (ns ! i) \<and> ParentDir (ns ! i) < int i)"

text \<open>
  The states of a \<open>TreeModel\<close>: the program only ever builds one with \<open>NewTreeModel\<close>
  (the empty tree the program starts with is the tree of the empty repository list)
  and changes it with \<open>MoveUp\<close>, \<open>MoveDown\<close> and \<open>ToggleCollapse\<close>.
\<close>

inductive reachable :: "TreeModel \<Rightarrow> bool" where
  new: "NewTreeModel ord rs = Some tm \<Longrightarrow> reachable tm"
| up: "reachable tm \<Longrightarrow> reachable (MoveUp tm)"
| down: "reachable tm \<Longrightarrow> reachable (MoveDown tm)"
| toggle: "reachable tm \<Longrightarrow> ToggleCollapse tm = Some tm' \<Longrightarrow> reachable tm'"

text \<open>An iteration over a map visits every key once.\<close>

definition permutes :: "rangeOrder \<Rightarrow> bool" where
  "permutes ord \<longleftrightarrow> (\<forall>k ks. mset (ord k ks) = mset ks)"

text \<open>Two iteration orders, and the repository lists and trees of the examples.\<close>

definition inOrder :: rangeOrder where
  "inOrder k ks = ks"

definition reversed :: rangeOrder where
  "reversed k ks = rev ks"

definition demo_repos :: "Repo list" where
  "demo_repos =
     [\<lparr>Repo_Path = ''/w/proj'', RelPath = ''proj'', Branch = ''main'',
       Files = [\<lparr>Path = ''README.md'', Status = StatusModified, IsStaged = False\<rparr>,
                \<lparr>Path = ''src/main.go'', Status = StatusAdded, IsStaged = False\<rparr>]\<rparr>]"

definition demo_small :: "Repo list" where
  "demo_small =
     [\<lparr>Repo_Path = ''/w/proj'', RelPath = ''proj'', Branch = ''main'',
       Files = [\<lparr>Path = ''README.md'', Status = StatusModified, IsStaged = False\<rparr>]\<rparr>]"

definition demo_nodes :: "bool \<Rightarrow> TreeNode list" where
  "demo_nodes c =
     [\<lparr>Kind = NodeRepo, File = None, DirPath = [], RepoIndex = 0, Depth = 0,
       Collapsed = False, ParentDir = - 1\<rparr>,
      \<lparr>Kind = NodeDir, File = None, DirPath = ''src'', RepoIndex = 0, Depth = 1,
       Collapsed = c, ParentDir = 0\<rparr>,
      \<lparr>Kind = NodeFile, File = Some \<lparr>Path = ''src/main.go'', Status = StatusAdded, IsStaged = False\<rparr>,
       DirPath = [], RepoIndex = 0, Depth = 2, Collapsed = False, ParentDir = 1\<rparr>,
      \<lparr>Kind = NodeFile, File = Some \<lparr>Path = ''README.md'', Status = StatusModified, IsStaged = False\<rparr>,
       DirPath = [], RepoIndex = 0, Depth = 1, Collapsed = False, ParentDir = 0\<rparr>]"

section \<open>Properties of the status parser\<close>

lemma spaceWidth_zero_head: "spaceWidth (c # cs) = 0 \<Longrightarrow> \<not> asciiSpace c"
  by (cases "c # cs" rule: spaceWidth.cases) (auto split: if_splits)

lemma FieldsFrom_no_space:
  "t \<in> set (FieldsFrom k cur s) \<Longrightarrow> \<forall>c\<in>set cur. \<not> asciiSpace c \<Longrightarrow> \<forall>c\<in>set t. \<not> asciiSpace c"
proof (induction k cur s rule: FieldsFrom.induct)
  case (1 k cur)
  then show ?case by (auto split: if_splits)
next
  case (2 k cur c cs)
  then show ?case by simp
next
  case (3 cur c cs)
  show ?case
  proof (cases "spaceWidth (c # cs) = 0")
    case True
    then have "\<not> asciiSpace c" by (rule spaceWidth_zero_head)
    with 3 True show ?thesis by auto
  next
    case False
    with 3 show ?thesis by (auto split: if_splits)
  qed
qed

text \<open>
  A field never holds a tab, so the \<open>len(parts) == 2\<close> branch of
  \<open>parseOrdinaryEntry\<close> is never taken: the path is always the last field.
\<close>

lemma Fields_no_tab: "t \<in> set (Fields s) \<Longrightarrow> CHR 0x09 \<notin> set t"
  using FieldsFrom_no_space [of t 0 "[]" s] by (auto simp: Fields_def asciiSpace_def)

lemma HasPrefix_Cons: "HasPrefix s (c # p) \<Longrightarrow> \<exists>r. s = c # r"
  by (cases s) (auto simp: HasPrefix_def)

lemma parseOrdinaryEntry_fields:
  assumes f: "Fields line = f0 # (x # y # xyrest) # rest" and n: "7 \<le> length rest"
  shows "parseOrdinaryEntry line =
     Inr (if y \<noteq> CHR ''.'' then Some \<lparr>Path = last rest, Status = mapStatusByte y, IsStaged = False\<rparr>
          else if x \<noteq> CHR ''.'' then Some \<lparr>Path = last rest, Status = mapStatusByte x, IsStaged = True\<rparr>
          else None)"
proof -
  from n have ne: "rest \<noteq> []" by auto
  then have l: "last (Fields line) = last rest" by (simp add: f)
  from ne have "last rest \<in> set (Fields line)" by (simp add: f)
  then have "CHR 0x09 \<notin> set (last rest)" by (rule Fields_no_tab)
  then have s: "SplitN2 (last rest) (CHR 0x09) = [last rest]" by (simp add: SplitN2_def)
  from n have len: "\<not> length (Fields line) < 9" by (simp add: f)
  show ?thesis
    unfolding parseOrdinaryEntry_def Let_def using len
    by (simp add: l s) (simp add: f)
qed

text \<open>
  C3. A line of the status output that starts with \<open>1\<close> or \<open>2\<close>, has at least nine
  fields and a second field of at least two bytes \<open>x\<close> (staged) and \<open>y\<close> (unstaged):
  when \<open>y\<close> is not the empty marker \<open>.\<close> the loop appends exactly one record,
  unstaged, with the status kind of \<open>y\<close>, whatever \<open>x\<close> is; otherwise, when \<open>x\<close> is
  not \<open>.\<close>, exactly one record, staged, with the status kind of \<open>x\<close>; otherwise
  nothing. The status kind of a marker is Modified for \<open>M\<close>, Added for \<open>A\<close>, Deleted
  for \<open>D\<close>, Renamed for \<open>R\<close>, Copied for \<open>C\<close>, and Modified for any other byte.
\<close>

theorem parser_unstaged_precedence:
  assumes t: "TrimSpace raw = line"
    and p: "HasPrefix line ''1 '' \<or> HasPrefix line ''2 ''"
    and f: "Fields line = f0 # (x # y # xyrest) # rest" and n: "7 \<le> length rest"
  shows "GetStatus_line raw =
     (let kind = (\<lambda>b. if b = CHR ''M'' then StatusModified
                       else if b = CHR ''A'' then StatusAdded
                       else if b = CHR ''D'' then StatusDeleted
                       else if b = CHR ''R'' then StatusRenamed
                       else if b = CHR ''C'' then StatusCopied
                       else StatusModified)
      in Inr (if y \<noteq> CHR ''.'' then [\<lparr>Path = last rest, Status = kind y, IsStaged = False\<rparr>]
              else if x \<noteq> CHR ''.'' then [\<lparr>Path = last rest, Status = kind x, IsStaged = True\<rparr>]
              else []))"
proof -
  from p obtain r where "line = CHR ''1'' # r \<or> line = CHR ''2'' # r"
    by (auto dest: HasPrefix_Cons)
  then have ne: "line \<noteq> []" and nh: "\<not> HasPrefix line ''#''"
    by (auto simp: HasPrefix_def)
  have "GetStatus_line raw =
     Inr (if y \<noteq> CHR ''.'' then [\<lparr>Path = last rest, Status = mapStatusByte y, IsStaged = False\<rparr>]
          else if x \<noteq> CHR ''.'' then [\<lparr>Path = last rest, Status = mapStatusByte x, IsStaged = True\<rparr>]
          else [])"
    unfolding GetStatus_line_def Let_def t
    using ne nh p by (simp add: parseOrdinaryEntry_fields [OF f n])
  then show ?thesis
    by (simp only: Let_def mapStatusByte_def)
qed

text \<open>
  Four lines: unstaged \<open>D\<close> over staged \<open>M\<close>, unstaged \<open>A\<close> alone, and staged \<open>R\<close> and
  \<open>C\<close> on rename and copy lines.
\<close>

theorem parser_unstaged_precedence_witness:
  "GetStatus_line ('' 1 MD N... 100644 100644 100644 1a2b 3c4d src/main.go'' @ [CHR 0x0D]) =
     Inr [\<lparr>Path = ''src/main.go'', Status = StatusDeleted, IsStaged = False\<rparr>]
   \<and> GetStatus_line ''1 .A N... 000000 000000 100644 0000 0000 new.go'' =
     Inr [\<lparr>Path = ''new.go'', Status = StatusAdded, IsStaged = False\<rparr>]
   \<and> GetStatus_line (''2 R. N... 100644 100644 100644 1a2b 3c4d R100 old.txt'' @ [CHR 0x09] @ ''new.txt'') =
     Inr [\<lparr>Path = ''new.txt'', Status = StatusRenamed, IsStaged = True\<rparr>]
   \<and> GetStatus_line (''2 C. N... 100644 100644 100644 1a2b 3c4d C75 a.txt'' @ [CHR 0x09] @ ''b.txt'') =
     Inr [\<lparr>Path = ''b.txt'', Status = StatusCopied, IsStaged = True\<rparr>]"
proof -
  have t1: "TrimSpace ('' 1 MD N... 100644 100644 100644 1a2b 3c4d src/main.go'' @ [CHR 0x0D]) =
      ''1 MD N... 100644 100644 100644 1a2b 3c4d src/main.go''"
    by code_simp
  have p1: "HasPrefix ''1 MD N... 100644 100644 100644 1a2b 3c4d src/main.go'' ''1 '' \<or>
            HasPrefix ''1 MD N... 100644 100644 100644 1a2b 3c4d src/main.go'' ''2 ''"
    by code_simp
  have f1: "Fields ''1 MD N... 100644 100644 100644 1a2b 3c4d src/main.go'' =
      ''1'' # (CHR ''M'' # CHR ''D'' # []) #
      [''N...'', ''100644'', ''100644'', ''100644'', ''1a2b'', ''3c4d'', ''src/main.go'']"
    by code_simp
  have n1: "7 \<le> length [''N...'', ''100644'', ''100644'', ''100644'', ''1a2b'', ''3c4d'', ''src/main.go'']"
    by simp
  have t2: "TrimSpace ''1 .A N... 000000 000000 100644 0000 0000 new.go'' =
      ''1 .A N... 000000 000000 100644 0000 0000 new.go''"
    by code_simp
  have p2: "HasPrefix ''1 .A N... 000000 000000 100644 0000 0000 new.go'' ''1 '' \<or>
            HasPrefix ''1 .A N... 000000 000000 100644 0000 0000 new.go'' ''2 ''"
    by code_simp
  have f2: "Fields ''1 .A N... 000000 000000 100644 0000 0000 new.go'' =
      ''1'' # (CHR ''.'' # CHR ''A'' # []) #
      [''N...'', ''000000'', ''000000'', ''100644'', ''0000'', ''0000'', ''new.go'']"
    by code_simp
  have n2: "7 \<le> length [''N...'', ''000000'', ''000000'', ''100644'', ''0000'', ''0000'', ''new.go'']"
    by simp
  have t3: "TrimSpace (''2 R. N... 100644 100644 100644 1a2b 3c4d R100 old.txt'' @ [CHR 0x09] @ ''new.txt'') =
      ''2 R. N... 100644 100644 100644 1a2b 3c4d R100 old.txt'' @ [CHR 0x09] @ ''new.txt''"
    by code_simp
  have p3: "HasPrefix (''2 R. N... 100644 100644 100644 1a2b 3c4d R100 old.txt'' @ [CHR 0x09] @ ''new.txt'') ''1 '' \<or>
            HasPrefix (''2 R. N... 100644 100644 100644 1a2b 3c4d R100 old.txt'' @ [CHR 0x09] @ ''new.txt'') ''2 ''"
    by code_simp
  have f3: "Fields (''2 R. N... 100644 100644 100644 1a2b 3c4d R100 old.txt'' @ [CHR 0x09] @ ''new.txt'') =
      ''2'' # (CHR ''R'' # CHR ''.'' # []) #
      [''N...'', ''100644'', ''100644'', ''100644'', ''1a2b'', ''3c4d'', ''R100'', ''old.txt'', ''new.txt'']"
    by code_simp
  have n3: "7 \<le> length [''N...'', ''100644'', ''100644'', ''100644'', ''1a2b'', ''3c4d'', ''R100'',
      ''old.txt'', ''new.txt'']"
    by simp
  have t4: "TrimSpace (''2 C. N... 100644 100644 100644 1a2b 3c4d C75 a.txt'' @ [CHR 0x09] @ ''b.txt'') =
      ''2 C. N... 100644 100644 100644 1a2b 3c4d C75 a.txt'' @ [CHR 0x09] @ ''b.txt''"
    by code_simp
  have p4: "HasPrefix (''2 C. N... 100644 100644 100644 1a2b 3c4d C75 a.txt'' @ [CHR 0x09] @ ''b.txt'') ''1 '' \<or>
            HasPrefix (''2 C. N... 100644 100644 100644 1a2b 3c4d C75 a.txt'' @ [CHR 0x09] @ ''b.txt'') ''2 ''"
    by code_simp
  have f4: "Fields (''2 C. N... 100644 100644 100644 1a2b 3c4d C75 a.txt'' @ [CHR 0x09] @ ''b.txt'') =
      ''2'' # (CHR ''C'' # CHR ''.'' # []) #
      [''N...'', ''100644'', ''100644'', ''100644'', ''1a2b'', ''3c4d'', ''C75'', ''a.txt'', ''b.txt'']"
    by code_simp
  have n4: "7 \<le> length [''N...'', ''100644'', ''100644'', ''100644'', ''1a2b'', ''3c4d'', ''C75'',
      ''a.txt'', ''b.txt'']"
    by simp
  from parser_unstaged_precedence [OF t1 p1 f1 n1] parser_unstaged_precedence [OF t2 p2 f2 n2]
    parser_unstaged_precedence [OF t3 p3 f3 n3] parser_unstaged_precedence [OF t4 p4 f4 n4]
  show ?thesis by (simp add: Let_def)
qed

text \<open>
  Lines of fewer than nine fields are dropped. The parser ends abnormally in one way
  only: on a line of at least nine fields whose second field is shorter than two
  bytes.
\<close>

lemma parseOrdinaryEntry_few_fields: "length (Fields line) < 9 \<Longrightarrow> parseOrdinaryEntry line = Inr None"
  by (simp add: parseOrdinaryEntry_def)

lemma parseOrdinaryEntry_failure:
  "parseOrdinaryEntry line = Inl e \<Longrightarrow>
     e = IndexOutOfRange \<and> 9 \<le> length (Fields line) \<and> length (Fields line ! 1) < 2"
  by (auto simp: parseOrdinaryEntry_def Let_def split: if_splits)

text \<open>
  When the part of a line after its last tab holds no white space, that part is the
  last field, and it is the path of the record: a rename line written as original
  path, tab, new path gives the new path as long as the new path has no white space
  in it.
\<close>

lemma FieldsFrom_no_space_run:
  "\<forall>i<length s. spaceWidth (drop i s) = 0 \<Longrightarrow> FieldsFrom 0 cur s = (if cur @ s = [] then [] else [cur @ s])"
proof (induction s arbitrary: cur)
  case Nil
  show ?case by simp
next
  case (Cons c cs)
  from Cons.prems have h: "spaceWidth (c # cs) = 0" by force
  have "\<forall>i<length cs. spaceWidth (drop i cs) = 0"
  proof (intro allI impI)
    fix i assume "i < length cs"
    with Cons.prems have "spaceWidth (drop (Suc i) (c # cs)) = 0" by (intro Cons.prems [rule_format]) simp
    then show "spaceWidth (drop i cs) = 0" by simp
  qed
  from Cons.IH [OF this, of "cur @ [c]"] h show ?case by simp
qed

lemma spaceWidth_before_tab:
  "spaceWidth (c # cs @ CHR 0x09 # new) - 1 \<le> length cs"
proof (cases cs)
  case Nil
  then show ?thesis by (cases new) (auto split: if_splits)
next
  case (Cons b cs')
  then show ?thesis by (cases cs') (auto split: if_splits)
qed

lemma spaceWidth_tab: "spaceWidth (CHR 0x09 # new) = 1"
  by (cases "CHR 0x09 # new" rule: spaceWidth.cases) (auto simp: asciiSpace_def)

lemma FieldsFrom_tab_last:
  assumes ne: "new \<noteq> []" and ns: "\<forall>i<length new. spaceWidth (drop i new) = 0"
  shows "k \<le> length pre \<Longrightarrow> \<exists>fs. FieldsFrom k cur (pre @ CHR 0x09 # new) = fs @ [new]"
proof (induction pre arbitrary: k cur)
  case Nil
  then have "k = 0" by simp
  with ne ns show ?case
    by (simp add: spaceWidth_tab FieldsFrom_no_space_run)
next
  case (Cons c cs)
  show ?case
  proof (cases k)
    case (Suc k')
    with Cons.prems have "k' \<le> length cs" by simp
    from Cons.IH [OF this, of cur] Suc show ?thesis by simp
  next
    case 0
    show ?thesis
    proof (cases "spaceWidth (c # cs @ CHR 0x09 # new) = 0")
      case True
      from Cons.IH [of 0 "cur @ [c]"] obtain fs
        where "FieldsFrom 0 (cur @ [c]) (cs @ CHR 0x09 # new) = fs @ [new]" by auto
      with 0 True show ?thesis by simp
    next
      case False
      have "spaceWidth (c # cs @ CHR 0x09 # new) - 1 \<le> length cs"
        by (rule spaceWidth_before_tab)
      from Cons.IH [OF this, of "[]"] obtain fs
        where "FieldsFrom (spaceWidth (c # cs @ CHR 0x09 # new) - 1) [] (cs @ CHR 0x09 # new) = fs @ [new]"
        by auto
      with 0 False show ?thesis by simp
    qed
  qed
qed

lemma Fields_tab_last:
  assumes "new \<noteq> []" and "\<forall>i<length new. spaceWidth (drop i new) = 0"
  shows "last (Fields (pre @ CHR 0x09 # new)) = new"
  using FieldsFrom_tab_last [OF assms, of 0 pre "[]"] by (auto simp: Fields_def)

lemma rename_path_without_space:
  assumes l: "line = pre @ CHR 0x09 # new"
    and ne: "new \<noteq> []" and ns: "\<forall>i<length new. spaceWidth (drop i new) = 0"
    and f: "Fields line = f0 # (x # y # xyrest) # rest" and n: "7 \<le> length rest"
    and st: "x \<noteq> CHR ''.'' \<or> y \<noteq> CHR ''.''"
  shows "\<exists>fs. parseOrdinaryEntry line = Inr (Some fs) \<and> Path fs = new"
proof -
  from n have "rest \<noteq> []" by auto
  then have "last rest = last (Fields line)" by (simp add: f)
  also have "\<dots> = new" unfolding l using ne ns by (rule Fields_tab_last)
  finally have "last rest = new" .
  with st show ?thesis by (auto simp: parseOrdinaryEntry_fields [OF f n])
qed

text \<open>
  C6. The parser is not total: a line that starts with \<open>1\<close>, has nine fields and a
  second field of one byte makes \<open>parseOrdinaryEntry\<close> read \<open>xy[1]\<close> out of range, and
  the panic ends the whole call, also for the well-formed lines around it.
\<close>

theorem parser_short_xy_panics:
  "GetStatus (Inr (''# branch.head main'' @ [CHR 0x0A] @ ''1 M a b c d e f g'' @ [CHR 0x0A] @ ''? new.txt''))
     = Inl IndexOutOfRange"
  by code_simp

text \<open>
  C2. A rename line whose new path holds a space: the record carries the last
  white-space separated word of the line, not the new path.
\<close>

theorem parser_rename_path_with_space:
  "GetStatus (Inr (''2 R. N... 100644 100644 100644 1a2b 3c4d R100 old.txt'' @ [CHR 0x09] @ ''new name.txt''))
     = Inr [\<lparr>Path = ''name.txt'', Status = StatusRenamed, IsStaged = True\<rparr>]"
  by code_simp

section \<open>Properties of the tree builder\<close>

lemma built_Nil: "built []"
  by (simp add: built_def)

lemma built_append:
  "built (ns @ ms) \<longleftrightarrow> built ns \<and> (\<forall>j<length ms. node_ok (length ns + j) (ms ! j))"
proof
  assume b: "built (ns @ ms)"
  have "built ns"
    unfolding built_def
  proof (intro allI impI)
    fix i assume "i < length ns"
    with b have "node_ok i ((ns @ ms) ! i)" by (simp add: built_def)
    with \<open>i < length ns\<close> show "node_ok i (ns ! i)" by (simp add: nth_append)
  qed
  moreover have "\<forall>j<length ms. node_ok (length ns + j) (ms ! j)"
  proof (intro allI impI)
    fix j assume "j < length ms"
    then have "length ns + j < length (ns @ ms)" by simp
    with b have "node_ok (length ns + j) ((ns @ ms) ! (length ns + j))"
      unfolding built_def by blast
    then show "node_ok (length ns + j) (ms ! j)" by simp
  qed
  ultimately show "built ns \<and> (\<forall>j<length ms. node_ok (length ns + j) (ms ! j))" by simp
next
  assume a: "built ns \<and> (\<forall>j<length ms. node_ok (length ns + j) (ms ! j))"
  show "built (ns @ ms)"
    unfolding built_def
  proof (intro allI impI)
    fix i assume i: "i < length (ns @ ms)"
    show "node_ok i ((ns @ ms) ! i)"
    proof (cases "i < length ns")
      case True
      with a show ?thesis by (simp add: built_def nth_append)
    next
      case False
      with i have "i - length ns < length ms" by simp
      with a have "node_ok (length ns + (i - length ns)) (ms ! (i - length ns))" by blast
      with False show ?thesis by (simp add: nth_append)
    qed
  qed
qed

lemma node_ok_fileNode: "p < k \<Longrightarrow> node_ok k (fileNode i d p f)"
  by (simp add: node_ok_def fileNode_def)

lemma node_ok_dirNode: "p < k \<Longrightarrow> node_ok k (dirNode i d nm p)"
  by (simp add: node_ok_def dirNode_def)

lemma node_ok_repoNode: "node_ok k (repoNode i)"
  by (simp add: node_ok_def repoNode_def)

lemma built_files:
  assumes "built ns" and "p < length ns"
  shows "built (ns @ map (fileNode i d p) fs)"
  using assms by (simp add: built_append node_ok_fileNode)

lemma emitDir_ok:
  assumes s: "st_ok r st" and p: "p < length (fst st)"
  shows "st_ok r (emitDir i df dir p st)"
proof -
  let ?ns = "fst st @ [dirNode i (length (Split dir (CHR ''/''))) (last (Split dir (CHR ''/''))) p]"
  from s p have "built ?ns" by (simp add: built_append st_ok_def node_ok_dirNode)
  moreover have "length (fst st) < length ?ns" by simp
  ultimately have "built (?ns @ map (fileNode i (length (Split dir (CHR ''/'')) + 1) (length (fst st)))
      (lookupFiles df dir))"
    by (rule built_files)
  with s show ?thesis
    by (auto simp: st_ok_def emitDir_def Let_def less_Suc_eq trans_less_add1)
qed

lemma addDir_ok: "st_ok r st \<Longrightarrow> st_ok r (addDir i r df st dir)"
proof (induction i r df st dir rule: addDir.induct)
  case (1 i repoIdx dirFiles st dir)
  show ?case
  proof (cases "snd st dir \<noteq> None")
    case True
    with 1 show ?thesis by (subst addDir.simps) simp
  next
    case absent: False
    show ?thesis
    proof (cases "1 < length (Split dir (CHR ''/''))")
      case True
      let ?pd = "Join (butlast (Split dir (CHR ''/''))) ''/''"
      let ?st1 = "addDir i repoIdx dirFiles st ?pd"
      from 1 absent True have ok1: "st_ok repoIdx ?st1" by simp
      then have "(case snd ?st1 ?pd of None \<Rightarrow> 0 | Some k \<Rightarrow> k) < length (fst ?st1)"
        by (auto simp: st_ok_def split: option.splits)
      with ok1 have "st_ok repoIdx (emitDir i dirFiles dir (case snd ?st1 ?pd of None \<Rightarrow> 0 | Some k \<Rightarrow> k) ?st1)"
        by (rule emitDir_ok)
      with absent True show ?thesis by (subst addDir.simps) (simp add: Let_def)
    next
      case False
      from 1(2) have "repoIdx < length (fst st)" by (simp add: st_ok_def)
      with 1(2) have "st_ok repoIdx (emitDir i dirFiles dir repoIdx st)" by (rule emitDir_ok)
      with absent False show ?thesis by (subst addDir.simps) simp
    qed
  qed
qed

lemma foldl_addDir_ok: "st_ok r st \<Longrightarrow> st_ok r (foldl (addDir i r df) st dirs)"
  by (induction dirs arbitrary: st) (simp_all add: addDir_ok)

lemma addRepo_built:
  assumes "built ns"
  shows "built (addRepo ord ns ir)"
proof -
  have "st_ok (length ns) (ns @ [repoNode (fst ir)], Map.empty)"
    using assms by (simp add: st_ok_def built_append node_ok_repoNode)
  then have "st_ok (length ns) (foldl (addDir (fst ir) (length ns) (groupFiles (Files (snd ir))))
       (ns @ [repoNode (fst ir)], Map.empty)
       (sort (ord (2 * fst ir + 1) (collectDirs (ord (2 * fst ir) (map fst (groupFiles (Files (snd ir)))))))))"
    (is "st_ok _ ?st")
    by (rule foldl_addDir_ok)
  then have "built (fst ?st)" and "length ns < length (fst ?st)" by (simp_all add: st_ok_def)
  then have "built (fst ?st @ map (fileNode (fst ir) 1 (length ns)) (lookupFiles (groupFiles (Files (snd ir))) []))"
    by (rule built_files)
  then show ?thesis by (simp add: addRepo_def Let_def)
qed

lemma foldl_addRepo_built: "built ns \<Longrightarrow> built (foldl (addRepo ord) ns irs)"
  by (induction irs arbitrary: ns) (simp_all add: addRepo_built)

lemma built_wf: "built ns \<Longrightarrow> wf_nodes ns"
  by (simp add: built_def wf_nodes_def node_ok_def)

lemma built_expanded: "built ns \<Longrightarrow> n \<in> set ns \<Longrightarrow> \<not> Collapsed n"
  by (auto simp: built_def node_ok_def in_set_conv_nth)

lemma built_all: "built (foldl (addRepo ord) [] (enumerate 0 rs))"
  by (rule foldl_addRepo_built) (rule built_Nil)

lemma ancestor_has_parent: "ancestor ns n j \<Longrightarrow> 0 \<le> ParentDir n"
  by (induction rule: ancestor.induct) auto

lemma ancestor_via_parent:
  assumes "ancestor ns m j" and "m = ns ! p" and "ancestor ns n p" and "p < length ns"
  shows "ancestor ns n j"
  using assms
proof (induction rule: ancestor.induct)
  case (parent m)
  then show ?case by (auto intro: ancestor.grandparent)
next
  case (grandparent j)
  then show ?case by (auto intro: ancestor.grandparent)
qed

lemma ancestor_unfold:
  assumes "0 \<le> ParentDir n" and "nat (ParentDir n) < length ns"
  shows "ancestor ns n j \<longleftrightarrow> j = nat (ParentDir n) \<or> ancestor ns (ns ! nat (ParentDir n)) j"
proof
  assume "ancestor ns n j"
  then show "j = nat (ParentDir n) \<or> ancestor ns (ns ! nat (ParentDir n)) j"
  proof (induction rule: ancestor.induct)
    case parent
    show ?case by simp
  next
    case (grandparent j)
    then show ?case by (auto intro: ancestor.intros)
  qed
next
  assume "j = nat (ParentDir n) \<or> ancestor ns (ns ! nat (ParentDir n)) j"
  then show "ancestor ns n j"
  proof
    assume "j = nat (ParentDir n)"
    with assms show ?thesis by (auto intro: ancestor.parent)
  next
    assume "ancestor ns (ns ! nat (ParentDir n)) j"
    moreover from assms have "ancestor ns n (nat (ParentDir n))" by (auto intro: ancestor.parent)
    ultimately show ?thesis using assms by (auto intro: ancestor_via_parent)
  qed
qed

lemma noCollapsedAncestor_root: "ParentDir n < 0 \<Longrightarrow> noCollapsedAncestor ns n"
  by (auto simp: noCollapsedAncestor_def dest: ancestor_has_parent)

lemma noCollapsedAncestor_step:
  assumes "0 \<le> ParentDir n" and "nat (ParentDir n) < length ns"
  shows "noCollapsedAncestor ns n \<longleftrightarrow>
     \<not> Collapsed (ns ! nat (ParentDir n)) \<and> noCollapsedAncestor ns (ns ! nat (ParentDir n))"
  using assms by (auto simp: noCollapsedAncestor_def ancestor_unfold [OF assms])

lemma isAncestorExpanded_wf:
  assumes wf: "wf_nodes ns"
  shows "ParentDir n < int k \<Longrightarrow> k \<le> length ns \<Longrightarrow>
     isAncestorExpanded ns n = Some (noCollapsedAncestor ns n)"
proof (induction k arbitrary: n rule: less_induct)
  case (less k)
  show ?case
  proof (cases "ParentDir n < 0")
    case True
    then show ?thesis
      by (subst isAncestorExpanded.simps) (simp add: noCollapsedAncestor_root)
  next
    case False
    let ?p = "nat (ParentDir n)"
    from False less.prems have p: "?p < k" "?p < length ns" "0 \<le> ParentDir n" by auto
    show ?thesis
    proof (cases "Collapsed (ns ! ?p)")
      case True
      with p False show ?thesis
        by (subst isAncestorExpanded.simps) (simp add: noCollapsedAncestor_step)
    next
      case nc: False
      from wf p(2) have "ParentDir (ns ! ?p) < int ?p"
        unfolding wf_nodes_def by (auto split: if_splits dest!: spec [of _ ?p])
      with p have "isAncestorExpanded ns (ns ! ?p) = Some (noCollapsedAncestor ns (ns ! ?p))"
        by (intro less.IH [of ?p]) auto
      with p False nc show ?thesis
        by (subst isAncestorExpanded.simps) (simp add: noCollapsedAncestor_step)
    qed
  qed
qed

lemma isAncestorExpanded_node:
  assumes "wf_nodes ns" and "i < length ns"
  shows "isAncestorExpanded ns (ns ! i) = Some (noCollapsedAncestor ns (ns ! i))"
proof -
  from assms have "ParentDir (ns ! i) < int (length ns)"
    unfolding wf_nodes_def by (auto split: if_splits dest!: spec [of _ i])
  with assms(1) show ?thesis by (rule isAncestorExpanded_wf) simp
qed

lemma repo_noCollapsedAncestor:
  assumes "wf_nodes ns" and "i < length ns" and "Kind (ns ! i) = NodeRepo"
  shows "noCollapsedAncestor ns (ns ! i)"
proof -
  from assms have "ParentDir (ns ! i) < 0"
    unfolding wf_nodes_def by (auto split: if_splits dest!: spec [of _ i])
  then show ?thesis by (rule noCollapsedAncestor_root)
qed

lemma visibleFrom_wf:
  assumes wf: "wf_nodes ns"
  shows "i \<le> length ns \<Longrightarrow> visibleFrom ns i (drop i ns) vis =
     Some (vis @ filter (\<lambda>j. noCollapsedAncestor ns (ns ! j)) [i..<length ns])"
proof (induction "length ns - i" arbitrary: i vis)
  case 0
  then show ?case by simp
next
  case (Suc d)
  then have i: "i < length ns" by simp
  then have dr: "drop i ns = ns ! i # drop (Suc i) ns" by (simp add: Cons_nth_drop_Suc)
  from i have up: "[i..<length ns] = i # [Suc i..<length ns]" by (simp add: upt_conv_Cons)
  from Suc i have IH: "\<And>vis. visibleFrom ns (Suc i) (drop (Suc i) ns) vis =
     Some (vis @ filter (\<lambda>j. noCollapsedAncestor ns (ns ! j)) [Suc i..<length ns])"
    by auto
  note e = isAncestorExpanded_node [OF wf i]
  show ?case
  proof (cases "Kind (ns ! i)")
    case NodeRepo
    with wf i have "noCollapsedAncestor ns (ns ! i)" by (intro repo_noCollapsedAncestor)
    with NodeRepo show ?thesis by (simp add: dr up IH)
  next
    case NodeDir
    then show ?thesis by (simp add: dr up IH e)
  next
    case NodeFile
    then show ?thesis by (simp add: dr up IH e)
  qed
qed

lemma rebuildVisible_wf:
  assumes "wf_nodes (nodes tm)"
  shows "rebuildVisible tm =
     Some (tm\<lparr>visible := filter (\<lambda>j. noCollapsedAncestor (nodes tm) (nodes tm ! j)) [0..<length (nodes tm)],
              cursor := (if int (length (filter (\<lambda>j. noCollapsedAncestor (nodes tm) (nodes tm ! j)) [0..<length (nodes tm)])) \<le> cursor tm
                         then max 0 (int (length (filter (\<lambda>j. noCollapsedAncestor (nodes tm) (nodes tm ! j)) [0..<length (nodes tm)])) - 1)
                         else cursor tm)\<rparr>)"
  using visibleFrom_wf [OF assms, of 0 "[]"] by (simp add: rebuildVisible_def)

lemma rebuildVisible_spec:
  assumes "wf_nodes (nodes tm)"
  shows "rebuildVisible tm =
     Some (tm\<lparr>visible := visibleSpec (nodes tm),
              cursor := (if int (length (visibleSpec (nodes tm))) \<le> cursor tm
                         then max 0 (int (length (visibleSpec (nodes tm))) - 1)
                         else cursor tm)\<rparr>)"
  using rebuildVisible_wf [OF assms] by (simp add: visibleSpec_def)

lemma NewTreeModel_eq:
  "NewTreeModel ord rs =
     Some \<lparr>nodes = foldl (addRepo ord) [] (enumerate 0 rs),
           visible = visibleSpec (foldl (addRepo ord) [] (enumerate 0 rs)),
           cursor = 0\<rparr>"
proof -
  have "wf_nodes (nodes \<lparr>nodes = foldl (addRepo ord) [] (enumerate 0 rs), visible = [], cursor = 0\<rparr>)"
    using built_all [of ord rs] by (simp add: built_wf)
  from rebuildVisible_spec [OF this] show ?thesis
    by (simp add: NewTreeModel_def)
qed

lemma wf_nodes_toggle:
  assumes "wf_nodes ns"
  shows "wf_nodes (ns[k := (ns ! k)\<lparr>Collapsed := c\<rparr>])"
  unfolding wf_nodes_def
proof (intro allI impI)
  fix i assume "i < length (ns[k := (ns ! k)\<lparr>Collapsed := c\<rparr>])"
  then have i: "i < length ns" by simp
  with assms have "if Kind (ns ! i) = NodeRepo then ParentDir (ns ! i) = - 1
                   else 0 \<le> ParentDir (ns ! i) \<and> ParentDir (ns ! i) < int i"
    by (simp add: wf_nodes_def)
  with i show "if Kind (ns[k := (ns ! k)\<lparr>Collapsed := c\<rparr>] ! i) = NodeRepo
       then ParentDir (ns[k := (ns ! k)\<lparr>Collapsed := c\<rparr>] ! i) = - 1
       else 0 \<le> ParentDir (ns[k := (ns ! k)\<lparr>Collapsed := c\<rparr>] ! i) \<and>
            ParentDir (ns[k := (ns ! k)\<lparr>Collapsed := c\<rparr>] ! i) < int i"
    by (cases "i = k") (auto split: if_splits)
qed

lemma reachable_inv:
  "reachable tm \<Longrightarrow> wf_nodes (nodes tm) \<and> visible tm = visibleSpec (nodes tm)"
proof (induction rule: reachable.induct)
  case (new ord rs tm)
  then have "tm = \<lparr>nodes = foldl (addRepo ord) [] (enumerate 0 rs),
           visible = visibleSpec (foldl (addRepo ord) [] (enumerate 0 rs)), cursor = 0\<rparr>"
    by (simp add: NewTreeModel_eq)
  then show ?case using built_all [of ord rs] by (simp add: built_wf)
next
  case (up tm)
  then show ?case by (simp add: MoveUp_def)
next
  case (down tm)
  then show ?case by (simp add: MoveDown_def)
next
  case (toggle tm tm')
  show ?case
  proof (cases "SelectedNode tm")
    case None
    with toggle show ?thesis by (simp add: ToggleCollapse_def)
  next
    case (Some ptr)
    show ?thesis
    proof (cases ptr)
      case Nil
      with Some toggle show ?thesis by (simp add: ToggleCollapse_def)
    next
      case (NodeAt k)
      show ?thesis
      proof (cases "Kind (nodes tm ! k) = NodeRepo \<or> Kind (nodes tm ! k) = NodeDir")
        case False
        with Some NodeAt toggle show ?thesis by (simp add: ToggleCollapse_def)
      next
        case True
        let ?t = "tm\<lparr>nodes := (nodes tm)[k := (nodes tm ! k)\<lparr>Collapsed := \<not> Collapsed (nodes tm ! k)\<rparr>]\<rparr>"
        from toggle have "wf_nodes (nodes ?t)" by (simp add: wf_nodes_toggle)
        from rebuildVisible_spec [OF this] Some NodeAt True toggle.hyps(2)
        have "tm' = ?t\<lparr>visible := visibleSpec (nodes ?t),
              cursor := (if int (length (visibleSpec (nodes ?t))) \<le> cursor ?t
                         then max 0 (int (length (visibleSpec (nodes ?t))) - 1)
                         else cursor ?t)\<rparr>"
          by (simp add: ToggleCollapse_def)
        then have "nodes tm' = nodes ?t" and "visible tm' = visibleSpec (nodes ?t)" by simp_all
        with \<open>wf_nodes (nodes ?t)\<close> show ?thesis by simp
      qed
    qed
  qed
qed

text \<open>In a reachable state \<open>ToggleCollapse\<close> always returns.\<close>

lemma ToggleCollapse_total:
  assumes "reachable tm"
  shows "\<exists>tm'. ToggleCollapse tm = Some tm'"
proof -
  from assms have wf: "wf_nodes (nodes tm)" and v: "visible tm = visibleSpec (nodes tm)"
    by (simp_all add: reachable_inv)
  have sel: "SelectedNode tm \<noteq> None"
  proof (cases "length (visible tm) = 0 \<or> cursor tm < 0 \<or> int (length (visible tm)) \<le> cursor tm")
    case True
    then show ?thesis by (auto simp: SelectedNode_def)
  next
    case False
    then have "visible tm ! nat (cursor tm) \<in> set (visible tm)" by (intro nth_mem) auto
    then have "visible tm ! nat (cursor tm) < length (nodes tm)"
      by (simp add: v visibleSpec_def)
    with False show ?thesis by (simp add: SelectedNode_def)
  qed
  have "wf_nodes (nodes (tm\<lparr>nodes := (nodes tm)[k := (nodes tm ! k)\<lparr>Collapsed := c\<rparr>]\<rparr>))" for k c
    using wf by (simp add: wf_nodes_toggle)
  from rebuildVisible_spec [OF this] sel show ?thesis
    by (auto simp: ToggleCollapse_def split: option.splits nodePtr.splits)
qed

lemma initial_tree_reachable: "reachable (tree initialModel)"
proof -
  have "NewTreeModel inOrder [] = Some (tree initialModel)"
    by (simp add: NewTreeModel_eq initialModel_def visibleSpec_def)
  then show ?thesis by (rule reachable.new)
qed

lemma demo_build:
  "NewTreeModel inOrder demo_repos = Some \<lparr>nodes = demo_nodes False, visible = [0, 1, 2, 3], cursor = 0\<rparr>"
  by code_simp

lemma demo_toggle:
  "ToggleCollapse \<lparr>nodes = demo_nodes False, visible = [0, 1, 2, 3], cursor = 1\<rparr>
     = Some \<lparr>nodes = demo_nodes True, visible = [0, 1, 3], cursor = 1\<rparr>"
  by code_simp

text \<open>
  C9. In every state the tree can be in (after the build and after any sequence of
  cursor moves and collapse toggles) the visibility list holds, in increasing order,
  exactly the indices of the nodes none of whose ancestors is collapsed. Every
  repository node is in it, and so is a collapsed node whose ancestors are all
  expanded.
\<close>

theorem visible_iff_no_collapsed_ancestor:
  assumes "reachable tm"
  shows "visible tm = filter (\<lambda>i. noCollapsedAncestor (nodes tm) (nodes tm ! i)) [0..<length (nodes tm)]
     \<and> (\<forall>i<length (nodes tm). Kind (nodes tm ! i) = NodeRepo \<longrightarrow> i \<in> set (visible tm))
     \<and> (\<forall>i<length (nodes tm). Collapsed (nodes tm ! i) \<and> noCollapsedAncestor (nodes tm) (nodes tm ! i)
           \<longrightarrow> i \<in> set (visible tm))"
proof -
  from assms have wf: "wf_nodes (nodes tm)" and v: "visible tm = visibleSpec (nodes tm)"
    by (simp_all add: reachable_inv)
  from v have 1: "visible tm = filter (\<lambda>i. noCollapsedAncestor (nodes tm) (nodes tm ! i)) [0..<length (nodes tm)]"
    by (simp add: visibleSpec_def)
  have 2: "\<forall>i<length (nodes tm). Kind (nodes tm ! i) = NodeRepo \<longrightarrow> i \<in> set (visible tm)"
    using wf by (auto simp: 1 intro: repo_noCollapsedAncestor)
  have 3: "\<forall>i<length (nodes tm). Collapsed (nodes tm ! i) \<and> noCollapsedAncestor (nodes tm) (nodes tm ! i)
           \<longrightarrow> i \<in> set (visible tm)"
    by (simp add: 1)
  from 1 2 3 show ?thesis by blast
qed

theorem visible_iff_no_collapsed_ancestor_witness:
  "[0, 1, 3] = filter (\<lambda>i. noCollapsedAncestor (demo_nodes True) (demo_nodes True ! i)) [0..<4]"
proof -
  have "reachable \<lparr>nodes = demo_nodes False, visible = [0, 1, 2, 3], cursor = 0\<rparr>"
    by (rule reachable.new) (rule demo_build)
  then have "reachable (MoveDown \<lparr>nodes = demo_nodes False, visible = [0, 1, 2, 3], cursor = 0\<rparr>)"
    by (rule reachable.down)
  then have "reachable \<lparr>nodes = demo_nodes False, visible = [0, 1, 2, 3], cursor = 1\<rparr>"
    by (simp add: MoveDown_def)
  then have r: "reachable \<lparr>nodes = demo_nodes True, visible = [0, 1, 3], cursor = 1\<rparr>"
    by (rule reachable.toggle) (rule demo_toggle)
  have "length (demo_nodes True) = 4" by (simp add: demo_nodes_def)
  with visible_iff_no_collapsed_ancestor [OF r] show ?thesis by simp
qed

text \<open>
  C10. \<open>ToggleCollapse\<close> returns the tree as it is (nodes, collapse flags, visibility
  list and cursor) when the visibility list is empty or the selected node is a file
  node.
\<close>

theorem toggle_noop:
  assumes "visible tm = [] \<or> (\<exists>k. SelectedNode tm = Some (NodeAt k) \<and> Kind (nodes tm ! k) = NodeFile)"
  shows "ToggleCollapse tm = Some tm"
  using assms
proof
  assume "visible tm = []"
  then have "SelectedNode tm = Some Nil" by (simp add: SelectedNode_def)
  then show ?thesis by (simp add: ToggleCollapse_def)
next
  assume "\<exists>k. SelectedNode tm = Some (NodeAt k) \<and> Kind (nodes tm ! k) = NodeFile"
  then show ?thesis by (auto simp: ToggleCollapse_def)
qed

theorem toggle_noop_witness:
  "ToggleCollapse \<lparr>nodes = [], visible = [], cursor = 0\<rparr> = Some \<lparr>nodes = [], visible = [], cursor = 0\<rparr>
   \<and> ToggleCollapse \<lparr>nodes = demo_nodes False, visible = [0, 1, 2, 3], cursor = 2\<rparr>
       = Some \<lparr>nodes = demo_nodes False, visible = [0, 1, 2, 3], cursor = 2\<rparr>"
proof -
  have 1: "visible \<lparr>nodes = [], visible = [], cursor = 0\<rparr> = [] \<or>
      (\<exists>k. SelectedNode \<lparr>nodes = [], visible = [], cursor = 0\<rparr> = Some (NodeAt k) \<and>
           Kind (nodes \<lparr>nodes = [], visible = [], cursor = 0\<rparr> ! k) = NodeFile)"
    by simp
  have "SelectedNode \<lparr>nodes = demo_nodes False, visible = [0, 1, 2, 3], cursor = 2\<rparr> = Some (NodeAt 2) \<and>
      Kind (nodes \<lparr>nodes = demo_nodes False, visible = [0, 1, 2, 3], cursor = 2\<rparr> ! 2) = NodeFile"
    by code_simp
  then have 2: "visible \<lparr>nodes = demo_nodes False, visible = [0, 1, 2, 3], cursor = 2\<rparr> = [] \<or>
      (\<exists>k. SelectedNode \<lparr>nodes = demo_nodes False, visible = [0, 1, 2, 3], cursor = 2\<rparr> = Some (NodeAt k) \<and>
           Kind (nodes \<lparr>nodes = demo_nodes False, visible = [0, 1, 2, 3], cursor = 2\<rparr> ! k) = NodeFile)"
    by blast
  from toggle_noop [OF 1] toggle_noop [OF 2] show ?thesis by simp
qed

text \<open>
  C1, as the code has it. The rebuild takes the repository list only; the model
  before the message has no influence on the new tree, and every node of the new
  tree is expanded.
\<close>

theorem rebuild_expands_all:
  "\<exists>m'. Update_reposScanned ord m rs = Some m' \<and> repos m' = rs \<and>
      (\<forall>n\<in>set (nodes (tree m')). \<not> Collapsed n)"
  using built_all [of ord rs]
  by (auto simp: Update_reposScanned_def NewTreeModel_eq dest: built_expanded)

theorem rebuild_expands_all_witness:
  "\<exists>m'. Update_reposScanned inOrder
        \<lparr>repos = demo_repos, tree = \<lparr>nodes = demo_nodes True, visible = [0, 1, 3], cursor = 1\<rparr>\<rparr> demo_repos
        = Some m' \<and> repos m' = demo_repos \<and> (\<forall>n\<in>set (nodes (tree m')). \<not> Collapsed n)"
  by (rule rebuild_expands_all)

text \<open>
  C1 fails as stated: the directory \<open>src\<close> is collapsed, the same repository data
  arrives again, and the directory is expanded in the rebuilt tree.
\<close>

theorem rebuild_forgets_collapse:
  "Option.bind (NewTreeModel inOrder demo_repos) (ToggleCollapse \<circ> MoveDown)
      = Some \<lparr>nodes = demo_nodes True, visible = [0, 1, 3], cursor = 1\<rparr>
   \<and> Update_reposScanned inOrder
        \<lparr>repos = demo_repos, tree = \<lparr>nodes = demo_nodes True, visible = [0, 1, 3], cursor = 1\<rparr>\<rparr> demo_repos
      = Some \<lparr>repos = demo_repos, tree = \<lparr>nodes = demo_nodes False, visible = [0, 1, 2, 3], cursor = 0\<rparr>\<rparr>
   \<and> Collapsed (demo_nodes True ! 1) \<and> \<not> Collapsed (demo_nodes False ! 1)"
  by code_simp

text \<open>
  C5, as the code has it. A recomputation of the visibility list leaves the cursor of
  the tree it runs on unchanged when it is below the new length \<open>N\<close>, and otherwise
  sets it to \<open>N - 1\<close>, or to 0 when \<open>N = 0\<close>; with an empty list \<open>SelectedNode\<close>
  returns nil. A rebuild runs it on a new tree, whose cursor is 0, so that the cursor
  is 0 after every rebuild.
\<close>

theorem cursor_clamp:
  assumes "rebuildVisible tm = Some tm'"
  shows "cursor tm' = (if int (length (visible tm')) \<le> cursor tm
                       then max 0 (int (length (visible tm')) - 1) else cursor tm)
     \<and> (visible tm' = [] \<longrightarrow> SelectedNode tm' = Some Nil)
     \<and> (\<exists>m'. Update_reposScanned ord m rs = Some m' \<and> cursor (tree m') = 0)"
proof -
  from assms have c: "cursor tm' = (if int (length (visible tm')) \<le> cursor tm
      then max 0 (int (length (visible tm')) - 1) else cursor tm)"
    by (auto simp: rebuildVisible_def split: option.splits)
  have "visible tm' = [] \<longrightarrow> SelectedNode tm' = Some Nil"
    by (simp add: SelectedNode_def)
  moreover have "\<exists>m'. Update_reposScanned ord m rs = Some m' \<and> cursor (tree m') = 0"
    by (simp add: Update_reposScanned_def NewTreeModel_eq)
  ultimately show ?thesis using c by simp
qed

theorem cursor_clamp_witness:
  "cursor \<lparr>nodes = demo_nodes True, visible = [0, 1, 3], cursor = 2\<rparr> = 2
   \<and> (\<exists>m'. Update_reposScanned inOrder
        \<lparr>repos = demo_repos, tree = \<lparr>nodes = demo_nodes False, visible = [0, 1, 2, 3], cursor = 3\<rparr>\<rparr>
        demo_small = Some m' \<and> cursor (tree m') = 0)"
proof -
  have h: "rebuildVisible \<lparr>nodes = demo_nodes True, visible = [0, 1, 2, 3], cursor = 3\<rparr>
      = Some \<lparr>nodes = demo_nodes True, visible = [0, 1, 3], cursor = 2\<rparr>"
    by code_simp
  from cursor_clamp [OF h, of inOrder
      "\<lparr>repos = demo_repos, tree = \<lparr>nodes = demo_nodes False, visible = [0, 1, 2, 3], cursor = 3\<rparr>\<rparr>" demo_small]
  show ?thesis by simp
qed

text \<open>
  C5 fails as stated: with four visible rows and the cursor on the last one, a
  rebuild that leaves two rows puts the cursor at 0, not at 1.
\<close>

theorem rebuild_resets_cursor:
  "map_option (MoveDown \<circ> MoveDown \<circ> MoveDown) (NewTreeModel inOrder demo_repos)
      = Some \<lparr>nodes = demo_nodes False, visible = [0, 1, 2, 3], cursor = 3\<rparr>
   \<and> map_option (\<lambda>m. (visible (tree m), cursor (tree m)))
        (Update_reposScanned inOrder
           \<lparr>repos = demo_repos, tree = \<lparr>nodes = demo_nodes False, visible = [0, 1, 2, 3], cursor = 3\<rparr>\<rparr>
           demo_small)
      = Some ([0, 1], 0)"
  by code_simp

lemma set_foldl_insert:
  "set (foldl (\<lambda>s k. List.insert (f k) s) S ks) = set S \<union> f ` set ks"
  by (induction ks arbitrary: S) auto

lemma distinct_foldl_insert:
  "distinct S \<Longrightarrow> distinct (foldl (\<lambda>s k. List.insert (f k) s) S ks)"
  by (induction ks arbitrary: S) auto

lemma set_addAncestors: "set (addAncestors S d) = set S \<union> set (addAncestors [] d)"
  by (simp add: addAncestors_def Let_def set_foldl_insert)

lemma distinct_addAncestors: "distinct S \<Longrightarrow> distinct (addAncestors S d)"
  by (simp add: addAncestors_def Let_def distinct_foldl_insert)

lemma set_foldl_addAncestors:
  "set (foldl addAncestors S keys) = set S \<union> (\<Union>d\<in>set keys. set (addAncestors [] d))"
proof (induction keys arbitrary: S)
  case Nil
  show ?case by simp
next
  case (Cons d keys)
  have "set (foldl addAncestors (addAncestors S d) keys)
      = set (addAncestors S d) \<union> (\<Union>d\<in>set keys. set (addAncestors [] d))"
    by (rule Cons.IH)
  also have "set (addAncestors S d) = set S \<union> set (addAncestors [] d)"
    by (rule set_addAncestors)
  finally show ?case by auto
qed

lemma distinct_foldl_addAncestors: "distinct S \<Longrightarrow> distinct (foldl addAncestors S keys)"
  by (induction keys arbitrary: S) (simp_all add: distinct_addAncestors)

lemma collectDirs_cong:
  assumes "set keys = set keys'"
  shows "mset (collectDirs keys) = mset (collectDirs keys')"
proof -
  have "set (collectDirs keys) = set (collectDirs keys')"
    using assms by (simp add: collectDirs_def set_foldl_addAncestors)
  moreover have "distinct (collectDirs keys)" and "distinct (collectDirs keys')"
    by (simp_all add: collectDirs_def distinct_foldl_addAncestors)
  ultimately show ?thesis by (simp add: set_eq_iff_mset_eq_distinct)
qed

lemma allDirs_order_independent:
  assumes "permutes ord" and "permutes ord'"
  shows "sort (ord k (collectDirs (ord j keys))) = sort (ord' k (collectDirs (ord' j keys)))"
proof -
  from assms have "set (ord j keys) = set (ord' j keys)"
    unfolding permutes_def by (metis mset_eq_setD)
  then have "mset (collectDirs (ord j keys)) = mset (collectDirs (ord' j keys))"
    by (rule collectDirs_cong)
  with assms have "mset (ord k (collectDirs (ord j keys))) = mset (ord' k (collectDirs (ord' j keys)))"
    by (simp add: permutes_def)
  then show ?thesis
    by (intro properties_for_sort) simp_all
qed

lemma addRepo_order_independent:
  assumes "permutes ord" and "permutes ord'"
  shows "addRepo ord ns ir = addRepo ord' ns ir"
  by (simp add: addRepo_def Let_def allDirs_order_independent [OF assms])

lemma foldl_addRepo_order_independent:
  assumes "permutes ord" and "permutes ord'"
  shows "foldl (addRepo ord) ns irs = foldl (addRepo ord') ns irs"
  by (induction irs arbitrary: ns) (simp_all add: addRepo_order_independent [OF assms])

lemma permutes_inOrder: "permutes inOrder"
  by (simp add: permutes_def inOrder_def)

lemma permutes_reversed: "permutes reversed"
  by (simp add: permutes_def reversed_def)

text \<open>
  C8. Whatever the orders in which the two map iterations of the builder visit their
  keys, two builds from the same repository list return the same tree: the same
  nodes with the same collapse flags, the same visibility list and the same cursor.
\<close>

theorem build_deterministic:
  assumes "permutes ord" and "permutes ord'"
  shows "\<exists>tm. NewTreeModel ord rs = Some tm \<and> NewTreeModel ord' rs = Some tm"
  by (simp add: NewTreeModel_eq foldl_addRepo_order_independent [OF assms])

theorem build_deterministic_witness:
  "\<exists>tm. NewTreeModel inOrder demo_repos = Some tm \<and> NewTreeModel reversed demo_repos = Some tm"
  by (rule build_deterministic [OF permutes_inOrder permutes_reversed])

section \<open>Properties of repository discovery\<close>

lemma isGitRepo_statusFails: "isGitRepo (statusFails env p e) q = isGitRepo env q"
  by (simp add: isGitRepo_def statusFails_def)

lemma FindBranch_statusFails: "FindBranch (statusFails env p e) q = FindBranch env q"
  by (simp add: FindBranch_def statusFails_def split: sum.splits)

lemma filepath_Abs_statusFails: "filepath_Abs (statusFails env p e) q = filepath_Abs env q"
  by (simp add: filepath_Abs_def statusFails_def)

lemma readDir_statusFails: "readDir (statusFails env p e) = readDir env"
  by (simp add: statusFails_def)

lemma buildRepo_status_error:
  "\<exists>r. buildRepo (statusFails env p e) root p = Inr r \<and> Repo_Path r = p \<and> Files r = []"
  by (simp add: buildRepo_def statusFails_def GetStatus_def Let_def)

lemma buildRepo_statusFails:
  assumes "buildRepo env root q = Inr r"
  shows "buildRepo (statusFails env p e) root q = Inr (emptied p r)"
proof -
  define rel where "rel = (let rel0 = (case filepath_Rel root q of Inl e \<Rightarrow> q | Inr r \<Rightarrow> r)
                 in if rel0 = [] \<or> rel0 = ''.'' then q else rel0)"
  have b: "\<And>env. buildRepo env root q =
     (case GetStatus (gitStatus env q) of
        Inl e \<Rightarrow> if e = IndexOutOfRange then Inl IndexOutOfRange
                 else Inr \<lparr>Repo_Path = q, RelPath = rel, Branch = FindBranch env q, Files = []\<rparr>
      | Inr files \<Rightarrow> Inr \<lparr>Repo_Path = q, RelPath = rel, Branch = FindBranch env q, Files = files\<rparr>)"
    by (simp only: buildRepo_def rel_def Let_def)
  from assms have q: "Repo_Path r = q"
    and r: "r\<lparr>Files := []\<rparr> = \<lparr>Repo_Path = q, RelPath = rel, Branch = FindBranch env q, Files = []\<rparr>"
    by (auto simp: b split: sum.splits if_splits)
  show ?thesis
  proof (cases "q = p")
    case True
    then have "gitStatus (statusFails env p e) q = Inl e" by (simp add: statusFails_def)
    then have "buildRepo (statusFails env p e) root q =
        Inr \<lparr>Repo_Path = q, RelPath = rel, Branch = FindBranch env q, Files = []\<rparr>"
      by (simp add: b FindBranch_statusFails GetStatus_def)
    with True q r show ?thesis
      by (simp add: emptied_def)
  next
    case False
    then have "gitStatus (statusFails env p e) q = gitStatus env q" by (simp add: statusFails_def)
    then have "buildRepo (statusFails env p e) root q = buildRepo env root q"
      by (simp add: b FindBranch_statusFails split: sum.splits)
    with False q assms show ?thesis
      by (simp add: emptied_def)
  qed
qed

lemma scanDeep_statusFails:
  "scanDeep env root sub es rs = Inr out \<Longrightarrow>
   scanDeep (statusFails env p e) root sub es (map (emptied p) rs) = Inr (map (emptied p) out)"
proof (induction es arbitrary: rs)
  case Nil
  then show ?case by simp
next
  case (Cons x es)
  show ?case
  proof (cases "IsDir x \<and> Name x \<noteq> [] \<and> Name x ! 0 \<noteq> CHR ''.'' \<and> isGitRepo env (filepath_Join [sub, Name x])")
    case True
    with Cons.prems obtain r where b: "buildRepo env root (filepath_Join [sub, Name x]) = Inr r"
      and s: "scanDeep env root sub es (rs @ [r]) = Inr out"
      by (auto split: sum.splits)
    from Cons.IH [OF s] have "scanDeep (statusFails env p e) root sub es (map (emptied p) rs @ [emptied p r])
        = Inr (map (emptied p) out)"
      by simp
    with True show ?thesis
      by (simp add: isGitRepo_statusFails buildRepo_statusFails [OF b])
  next
    case False
    with Cons.prems have "scanDeep env root sub es rs = Inr out"
      by (auto split: if_splits)
    from Cons.IH [OF this] False Cons.prems show ?thesis
      by (auto simp: isGitRepo_statusFails split: if_splits)
  qed
qed

lemma scanSub_statusFails:
  assumes "scanSub env root sub rs = Inr out"
  shows "scanSub (statusFails env p e) root sub (map (emptied p) rs) = Inr (map (emptied p) out)"
proof (cases "isGitRepo env sub")
  case True
  with assms obtain r where b: "buildRepo env root sub = Inr r"
    by (auto simp: scanSub_def split: sum.splits)
  show ?thesis
  proof (cases "readDir env sub")
    case (Inl x)
    with assms True b show ?thesis
      by (auto simp: scanSub_def isGitRepo_statusFails readDir_statusFails buildRepo_statusFails [OF b])
  next
    case (Inr es)
    with assms True b have "scanDeep env root sub es (rs @ [r]) = Inr out"
      by (simp add: scanSub_def)
    from scanDeep_statusFails [OF this, of p e] True Inr show ?thesis
      by (simp add: scanSub_def isGitRepo_statusFails readDir_statusFails buildRepo_statusFails [OF b])
  qed
next
  case False
  show ?thesis
  proof (cases "readDir env sub")
    case (Inl x)
    with assms False show ?thesis
      by (auto simp: scanSub_def isGitRepo_statusFails readDir_statusFails)
  next
    case (Inr es)
    with assms False have "scanDeep env root sub es rs = Inr out"
      by (simp add: scanSub_def)
    from scanDeep_statusFails [OF this, of p e] False Inr show ?thesis
      by (simp add: scanSub_def isGitRepo_statusFails readDir_statusFails)
  qed
qed

lemma scanEntries_statusFails:
  "scanEntries env root es rs = Inr out \<Longrightarrow>
   scanEntries (statusFails env p e) root es (map (emptied p) rs) = Inr (map (emptied p) out)"
proof (induction es arbitrary: rs)
  case Nil
  then show ?case by simp
next
  case (Cons x es)
  show ?case
  proof (cases "IsDir x \<and> Name x \<noteq> [] \<and> Name x ! 0 \<noteq> CHR ''.''")
    case True
    with Cons.prems obtain rs1 where b: "scanSub env root (filepath_Join [root, Name x]) rs = Inr rs1"
      and s: "scanEntries env root es rs1 = Inr out"
      by (auto split: sum.splits)
    from True show ?thesis
      by (simp add: scanSub_statusFails [OF b] Cons.IH [OF s])
  next
    case False
    with Cons.prems have "scanEntries env root es rs = Inr out"
      by (auto split: if_splits)
    from Cons.IH [OF this] False Cons.prems show ?thesis
      by (auto split: if_splits)
  qed
qed

lemma insertBack_map:
  assumes "\<And>a b. lt (f a) (f b) = lt a b"
  shows "insertBack lt (f x) (map f ys) = map f (insertBack lt x ys)"
  by (induction ys) (simp_all add: assms)

lemma foldl_insertBack_map:
  assumes "\<And>a b. lt (f a) (f b) = lt a b"
  shows "foldl (\<lambda>front x. insertBack lt x front) (map f front) (map f xs)
       = map f (foldl (\<lambda>front x. insertBack lt x front) front xs)"
  by (induction xs arbitrary: front) (simp_all add: insertBack_map [where lt = lt and f = f, OF assms])

lemma sortSlice_map:
  assumes "\<And>a b. lt (f a) (f b) = lt a b"
  shows "sortSlice lt (map f xs) = map f (sortSlice lt xs)"
  using foldl_insertBack_map [where lt = lt and f = f and front = "[]" and xs = xs, OF assms]
  by (simp add: sortSlice_def rev_map)

lemma repoLess_emptied: "repoLess (emptied p a) (emptied p b) = repoLess a b"
  by (simp add: repoLess_def emptied_def)

lemma demo_scan:
  "ScanRepos demo_sys ''/r'' =
     Inr [\<lparr>Repo_Path = ''/r/-a'', RelPath = ''-a'', Branch = ''main'', Files = []\<rparr>,
          \<lparr>Repo_Path = ''/r'', RelPath = ''/r'', Branch = ''main'',
           Files = [\<lparr>Path = ''notes.txt'', Status = StatusUntracked, IsStaged = False\<rparr>]\<rparr>]"
  by code_simp

text \<open>
  C7. Take any discovery pass that returns a repository list. If the status command
  of the repository at \<open>p\<close> fails instead, the pass still returns a list: the same
  repositories in the same order, the one at \<open>p\<close> with an empty file list and every
  other one unchanged. \<open>buildRepo\<close> itself returns the repository with no files
  whenever its status command fails.
\<close>

theorem status_failure_contained:
  assumes "ScanRepos env root = Inr rs"
  shows "ScanRepos (statusFails env p e) root = Inr (map (emptied p) rs)
     \<and> (\<exists>r. buildRepo (statusFails env p e) root1 p = Inr r \<and> Repo_Path r = p \<and> Files r = [])"
proof -
  from assms obtain root' where a: "filepath_Abs env root = Inr root'"
    by (auto simp: ScanRepos_def split: sum.splits)
  let ?first = "if isGitRepo env root'
                 then (case buildRepo env root' root' of Inl e \<Rightarrow> Inl e | Inr r \<Rightarrow> Inr [r])
                 else Inr []"
  from assms a obtain rs0 where f: "?first = Inr rs0"
    by (auto simp: ScanRepos_def split: sum.splits)
  have f': "(if isGitRepo (statusFails env p e) root'
             then (case buildRepo (statusFails env p e) root' root' of Inl e \<Rightarrow> Inl e | Inr r \<Rightarrow> Inr [r])
             else Inr []) = Inr (map (emptied p) rs0)"
  proof (cases "isGitRepo env root'")
    case True
    with f obtain r where b: "buildRepo env root' root' = Inr r" and "rs0 = [r]"
      by (auto split: sum.splits)
    with True show ?thesis
      by (simp add: isGitRepo_statusFails buildRepo_statusFails [OF b])
  next
    case False
    with f show ?thesis by (simp add: isGitRepo_statusFails)
  qed
  have "ScanRepos (statusFails env p e) root = Inr (map (emptied p) rs)"
  proof (cases "readDir env root'")
    case (Inl x)
    with assms a f have "rs = rs0" by (simp add: ScanRepos_def)
    with Inl a f' show ?thesis
      by (simp add: ScanRepos_def filepath_Abs_statusFails readDir_statusFails)
  next
    case (Inr es)
    with assms a f obtain out where s: "scanEntries env root' es rs0 = Inr out"
      and rs: "rs = sortSlice repoLess out"
      by (auto simp: ScanRepos_def split: sum.splits)
    have "sortSlice repoLess (map (emptied p) out) = map (emptied p) (sortSlice repoLess out)"
      by (rule sortSlice_map [where lt = repoLess and f = "emptied p"]) (rule repoLess_emptied)
    with Inr a f' rs show ?thesis
      by (simp add: ScanRepos_def filepath_Abs_statusFails readDir_statusFails
          scanEntries_statusFails [OF s])
  qed
  with buildRepo_status_error [of env p e root1] show ?thesis by simp
qed

theorem status_failure_contained_witness:
  "ScanRepos (statusFails demo_sys ''/r'' CommandFailed) ''/r'' =
     Inr [\<lparr>Repo_Path = ''/r/-a'', RelPath = ''-a'', Branch = ''main'', Files = []\<rparr>,
          \<lparr>Repo_Path = ''/r'', RelPath = ''/r'', Branch = ''main'', Files = []\<rparr>]"
  using status_failure_contained [OF demo_scan, of "''/r''" CommandFailed]
  by (simp add: emptied_def)

text \<open>
  With no display path equal to \<open>.\<close> the comparison of \<open>ScanRepos\<close> is the order of
  the display paths, and the result of the sort is in that order.
\<close>

lemma set_insertBack: "set (insertBack lt x ys) = insert x (set ys)"
  by (induction ys) auto

lemma insertBack_descending:
  assumes "RelPath x \<noteq> ''.''" and "\<forall>r\<in>set ys. RelPath r \<noteq> ''.''"
    and "sorted_wrt (\<lambda>a b. RelPath b \<le> RelPath a) ys"
  shows "sorted_wrt (\<lambda>a b. RelPath b \<le> RelPath a) (insertBack repoLess x ys)"
  using assms
proof (induction ys)
  case Nil
  show ?case by simp
next
  case (Cons y ys)
  show ?case
  proof (cases "RelPath x < RelPath y")
    case True
    with Cons show ?thesis by (auto simp: repoLess_def set_insertBack)
  next
    case False
    then have "RelPath y \<le> RelPath x" by simp
    with Cons.prems False show ?thesis by (fastforce simp: repoLess_def)
  qed
qed

lemma foldl_insertBack_descending:
  assumes "\<forall>r\<in>set xs. RelPath r \<noteq> ''.''" and "\<forall>r\<in>set front. RelPath r \<noteq> ''.''"
    and "sorted_wrt (\<lambda>a b. RelPath b \<le> RelPath a) front"
  shows "sorted_wrt (\<lambda>a b. RelPath b \<le> RelPath a) (foldl (\<lambda>front x. insertBack repoLess x front) front xs)"
  using assms
proof (induction xs arbitrary: front)
  case Nil
  then show ?case by simp
next
  case (Cons x xs)
  from Cons.prems have "sorted_wrt (\<lambda>a b. RelPath b \<le> RelPath a) (insertBack repoLess x front)"
    by (intro insertBack_descending) auto
  moreover from Cons.prems have "\<forall>r\<in>set (insertBack repoLess x front). RelPath r \<noteq> ''.''"
    by (auto simp: set_insertBack)
  moreover from Cons.prems have "\<forall>r\<in>set xs. RelPath r \<noteq> ''.''" by simp
  ultimately show ?case using Cons.IH by simp
qed

lemma sortSlice_by_RelPath:
  assumes "\<forall>r\<in>set rs. RelPath r \<noteq> ''.''"
  shows "sorted (map RelPath (sortSlice repoLess rs))"
proof -
  have "sorted_wrt (\<lambda>a b. RelPath b \<le> RelPath a) (foldl (\<lambda>front x. insertBack repoLess x front) [] rs)"
    using assms by (intro foldl_insertBack_descending) auto
  then have "sorted_wrt (\<lambda>a b. RelPath a \<le> RelPath b) (sortSlice repoLess rs)"
    by (simp add: sortSlice_def sorted_wrt_rev)
  then show ?thesis by (simp add: sorted_map)
qed

text \<open>
  C4. The root \<open>/r\<close> is a repository and so is its subdirectory \<open>-a\<close>. \<open>buildRepo\<close>
  gives the root its absolute path as display path, the comparison looks for the
  display path \<open>.\<close>, and the root is sorted after \<open>-a\<close>.
\<close>

theorem scan_root_not_first:
  "isGitRepo demo_sys ''/r'' \<and>
   (case ScanRepos demo_sys ''/r'' of Inl e \<Rightarrow> [] | Inr rs \<Rightarrow> map RelPath rs) = [''-a'', ''/r'']"
  by code_simp

end
